theory Spec2Isabelle
  imports Main "HOL-Library.Word"
begin

section \<open>Data model of fusion.go\<close>

text \<open>
  A \<^verbatim>\<open>json.RawMessage\<close> is a byte slice that may be \<^verbatim>\<open>nil\<close>: \<open>None\<close> is the nil
  slice, \<open>Some bs\<close> a non-nil slice holding the bytes \<open>bs\<close>.

  A \<^verbatim>\<open>Panel\<close> is a Go map from field names to raw messages. Go maps are reference
  values: assigning a field through one variable is visible through every other
  variable that holds the same map. Panels therefore live in a store, and a
  \<^verbatim>\<open>[]Panel\<close> is a list of addresses into it. In a panel, \<open>None\<close> means the key is
  absent, \<open>Some r\<close> that it is present with value \<open>r\<close> (which may be the nil slice).

  Go's \<^verbatim>\<open>int\<close> is taken as the 64-bit two's complement integer of the usual targets.
\<close>

type_synonym RawMessage = "string option"
type_synonym Panel = "string \<Rightarrow> RawMessage option"
type_synonym addr = nat
type_synonym store = "addr \<Rightarrow> Panel"
type_synonym goint = "64 word"

record GridPos =
  H :: goint
  W :: goint
  X :: goint
  Y :: goint

datatype error = Panic

text \<open>
  The functions of \<^verbatim>\<open>encoding/json\<close> that the code calls are a parameter of the model:
  \<^item> \<open>unmarshal_string bs\<close> is \<^verbatim>\<open>json.Unmarshal(bs, &v)\<close> for a fresh string variable
    \<open>v\<close>: \<open>None\<close> when an error is returned (then \<open>v\<close> is still empty), otherwise the
    value of \<open>v\<close>;
  \<^item> \<open>unmarshal_GridPos bs\<close> likewise for a fresh \<^verbatim>\<open>GridPos\<close>;
  \<^item> \<open>marshal_GridPos g\<close> is \<^verbatim>\<open>json.Marshal(g)\<close>, which cannot fail on a struct of
    integers;
  \<^item> \<open>unmarshal_Panels bs\<close> is \<^verbatim>\<open>json.Unmarshal(bs, &panels)\<close> for a fresh
    \<^verbatim>\<open>[]Panel\<close>; the maps it returns are newly allocated.
\<close>

record codec =
  unmarshal_string :: "string \<Rightarrow> string option"
  unmarshal_GridPos :: "string \<Rightarrow> GridPos option"
  marshal_GridPos :: "GridPos \<Rightarrow> string"
  unmarshal_Panels :: "string \<Rightarrow> Panel list option"

definition bytes_of :: "RawMessage \<Rightarrow> string" where
  "bytes_of r = (case r of None \<Rightarrow> [] | Some bs \<Rightarrow> bs)"

text \<open>\<^verbatim>\<open>p[k]\<close>: the nil slice when the key is absent.\<close>

definition index :: "Panel \<Rightarrow> string \<Rightarrow> RawMessage" where
  "index p k = (case p k of None \<Rightarrow> None | Some r \<Rightarrow> r)"

text \<open>\<^verbatim>\<open>bytes.Equal\<close> compares contents; a nil slice equals an empty one.\<close>

definition bytes_Equal :: "RawMessage \<Rightarrow> RawMessage \<Rightarrow> bool" where
  "bytes_Equal a b \<longleftrightarrow> bytes_of a = bytes_of b"

definition Equals :: "Panel \<Rightarrow> Panel \<Rightarrow> bool" where
  "Equals p p2 \<longleftrightarrow>
     bytes_Equal (index p ''title'') (index p2 ''title'') \<and>
     bytes_Equal (index p ''type'') (index p2 ''type'')"

definition IDRaw :: "Panel \<Rightarrow> RawMessage" where
  "IDRaw p = index p ''id''"

definition GridPosRaw :: "Panel \<Rightarrow> RawMessage" where
  "GridPosRaw p = index p ''gridPos''"

definition TypeRaw :: "Panel \<Rightarrow> RawMessage" where
  "TypeRaw p = index p ''type''"

definition TitleRaw :: "Panel \<Rightarrow> RawMessage" where
  "TitleRaw p = index p ''title''"

definition PanelsRaw :: "Panel \<Rightarrow> RawMessage" where
  "PanelsRaw p = index p ''panels''"

definition zero_GridPos :: GridPos where
  "zero_GridPos = \<lparr>H = 0, W = 0, X = 0, Y = 0\<rparr>"

text \<open>
  The method \<^verbatim>\<open>GridPos()\<close>: the zero rectangle when the key is absent; a panic when
  the key is present and its value does not decode (a nil value does not).
\<close>

definition getGridPos :: "codec \<Rightarrow> Panel \<Rightarrow> error + GridPos" where
  "getGridPos J p =
     (case p ''gridPos'' of
        None \<Rightarrow> Inr zero_GridPos
      | Some gp \<Rightarrow>
          (case unmarshal_GridPos J (bytes_of gp) of
             None \<Rightarrow> Inl Panic
           | Some gridPos \<Rightarrow> Inr gridPos))"

text \<open>\<^verbatim>\<open>p[k] = v\<close> on the panel at address \<open>a\<close>.\<close>

definition assign :: "store \<Rightarrow> addr \<Rightarrow> string \<Rightarrow> RawMessage \<Rightarrow> store" where
  "assign s a k v = s(a := (s a)(k \<mapsto> v))"

section \<open>MergePanels\<close>

text \<open>The first loop: copy \<open>ps1\<close> into \<open>res\<close> and track the largest bottom edge.\<close>

fun copy_base ::
  "codec \<Rightarrow> store \<Rightarrow> addr list \<Rightarrow> goint \<Rightarrow> addr list \<Rightarrow> error + (goint \<times> addr list)"
where
  "copy_base J s [] maxY res = Inr (maxY, res)"
| "copy_base J s (p1 # ps1) maxY res =
     (case getGridPos J (s p1) of
        Inl e \<Rightarrow> Inl e
      | Inr gp \<Rightarrow>
          copy_base J s ps1 (if maxY <s Y gp + H gp then Y gp + H gp else maxY) (res @ [p1]))"

text \<open>
  The scan \<^verbatim>\<open>for i := range res\<close> for one incoming panel \<open>p2\<close>: the slots still to
  visit are the argument, the result is those slots after the scan, the store and
  whether a slot matched. The two assignments to \<open>p2\<close> read \<open>res[i]\<close> before either
  writes.
\<close>

fun overwrite :: "store \<Rightarrow> addr \<Rightarrow> addr list \<Rightarrow> addr list \<times> store \<times> bool" where
  "overwrite s p2 [] = ([], s, False)"
| "overwrite s p2 (r # rs) =
     (if Equals (s r) (s p2) then
        (let s1 = assign (assign s p2 ''gridPos'' (GridPosRaw (s r))) p2 ''id'' (IDRaw (s r));
             (rs', s2, matched) = overwrite s1 p2 rs
         in (p2 # rs', s2, True))
      else
        (let (rs', s2, matched) = overwrite s p2 rs
         in (r # rs', s2, matched)))"

definition default_GridPos :: "goint \<Rightarrow> GridPos" where
  "default_GridPos maxY = \<lparr>H = 2, W = 6, X = 0, Y = maxY + 1\<rparr>"

text \<open>
  One iteration of \<^verbatim>\<open>for len(ps2) > 0\<close> on the loop's variables \<open>maxY\<close>, \<open>res\<close> and
  the store.
\<close>

definition merge_step ::
  "codec \<Rightarrow> addr \<Rightarrow> goint \<times> addr list \<times> store \<Rightarrow> goint \<times> addr list \<times> store"
where
  "merge_step J p2 st =
     (case st of (maxY, res, s) \<Rightarrow>
        (case overwrite s p2 res of
           (res1, s1, matched) \<Rightarrow>
             if matched then (maxY, res1, s1)
             else
               (let g = default_GridPos maxY;
                    s2 = assign s1 p2 ''gridPos'' (Some (marshal_GridPos J g))
                in (maxY + H g, res1 @ [p2], s2))))"

fun merge_loop ::
  "codec \<Rightarrow> addr list \<Rightarrow> goint \<times> addr list \<times> store \<Rightarrow> goint \<times> addr list \<times> store"
where
  "merge_loop J [] st = st"
| "merge_loop J (p2 # ps2) st = merge_loop J ps2 (merge_step J p2 st)"

definition MergePanels ::
  "codec \<Rightarrow> addr list \<Rightarrow> addr list \<Rightarrow> store \<Rightarrow> error + (addr list \<times> store)"
where
  "MergePanels J ps1 ps2 s =
     (case copy_base J s ps1 0 [] of
        Inl e \<Rightarrow> Inl e
      | Inr (maxY, res) \<Rightarrow> Inr (snd (merge_loop J ps2 (maxY, res, s))))"

section \<open>groupByRow\<close>

text \<open>
  A Go map from group names to values is a partial function. Memory for the maps
  that \<^verbatim>\<open>json.Unmarshal\<close> creates is taken from the addresses \<open>n, n + 1, \<dots>\<close>, where
  \<open>n\<close> is the second component of a heap.
\<close>

type_synonym heap = "store \<times> addr"

fun alloc :: "Panel list \<Rightarrow> heap \<Rightarrow> addr list \<times> heap" where
  "alloc [] h = ([], h)"
| "alloc (p # ps) (s, n) =
     (case alloc ps (s(n := p), Suc n) of (as, h) \<Rightarrow> (n # as, h))"

definition retrieveEmbeddedPanels :: "codec \<Rightarrow> addr \<Rightarrow> heap \<Rightarrow> addr list \<times> heap" where
  "retrieveEmbeddedPanels J p h =
     (case PanelsRaw (fst h p) of
        None \<Rightarrow> ([], h)
      | Some panelsRaw \<Rightarrow>
          (case unmarshal_Panels J panelsRaw of
             None \<Rightarrow> ([], h)
           | Some panels \<Rightarrow> alloc panels h))"

text \<open>\<^verbatim>\<open>groups[name]\<close>, the nil slice when the key is absent.\<close>

definition group_of :: "(string \<rightharpoonup> addr list) \<Rightarrow> string \<Rightarrow> addr list" where
  "group_of groups name = (case groups name of None \<Rightarrow> [] | Some g \<Rightarrow> g)"

record grouping =
  groups :: "string \<rightharpoonup> addr list"
  rows :: "string \<rightharpoonup> addr"
  groupName :: string

text \<open>
  One iteration of the loop of \<^verbatim>\<open>groupByRow\<close>. A panel whose type is nil or does not
  decode as a string is skipped. A row whose title is nil or does not decode leaves
  \<open>groupName\<close> as it is.
\<close>

definition groupByRow_step :: "codec \<Rightarrow> addr \<Rightarrow> grouping \<times> heap \<Rightarrow> grouping \<times> heap" where
  "groupByRow_step J p st =
     (case st of (g, h) \<Rightarrow>
        (case TypeRaw (fst h p) of
           None \<Rightarrow> st
         | Some t \<Rightarrow>
             (case unmarshal_string J t of
                None \<Rightarrow> st
              | Some panelType \<Rightarrow>
                  if panelType = ''row'' then
                    (let name =
                           (case TitleRaw (fst h p) of
                              None \<Rightarrow> groupName g
                            | Some tr \<Rightarrow>
                                (case unmarshal_string J tr of
                                   None \<Rightarrow> groupName g
                                 | Some title \<Rightarrow> title));
                         (embedded, h1) = retrieveEmbeddedPanels J p h;
                         s2 = assign (assign (fst h1) p ''panels'' (Some ''[]''))
                                p ''collapsed'' (Some ''false'')
                     in (g\<lparr>groups := (groups g)(name \<mapsto> group_of (groups g) name @ embedded),
                            rows := (rows g)(name \<mapsto> p),
                            groupName := name\<rparr>,
                         (s2, snd h1)))
                  else
                    (g\<lparr>groups := (groups g)(groupName g \<mapsto>
                                      group_of (groups g) (groupName g) @ [p])\<rparr>, h))))"

fun groupByRow_loop :: "codec \<Rightarrow> addr list \<Rightarrow> grouping \<times> heap \<Rightarrow> grouping \<times> heap" where
  "groupByRow_loop J [] st = st"
| "groupByRow_loop J (p # ps) st = groupByRow_loop J ps (groupByRow_step J p st)"

definition groupByRow ::
  "codec \<Rightarrow> addr list \<Rightarrow> heap \<Rightarrow> ((string \<rightharpoonup> addr list) \<times> (string \<rightharpoonup> addr)) \<times> heap"
where
  "groupByRow J ps h =
     (case groupByRow_loop J ps
             (\<lparr>groups = Map.empty, rows = Map.empty, groupName = ''none''\<rparr>, h) of
        (g, h') \<Rightarrow> ((groups g, rows g), h'))"

section \<open>MergePanelsByGroup\<close>

text \<open>
  Go leaves the order of \<^verbatim>\<open>range\<close> over a map unspecified and varies it between
  runs. The two loops whose order can show in the result take it as an argument:
  the keys of \<open>groupsPs1\<close> and the keys of \<open>mergedGroups\<close>, each in the order the
  run visits them.
\<close>

record iteration =
  groupsPs1_order :: "string list"
  mergedGroups_order :: "string list"


text \<open>\<^verbatim>\<open>for name, g1 := range groupsPs1\<close>: merge the child panels of each group.\<close>

fun merge_groups ::
  "codec \<Rightarrow> (string \<rightharpoonup> addr list) \<Rightarrow> (string \<rightharpoonup> addr list) \<Rightarrow> string list \<Rightarrow>
   (string \<rightharpoonup> addr list) \<Rightarrow> store \<Rightarrow> error + ((string \<rightharpoonup> addr list) \<times> store)"
where
  "merge_groups J groupsPs1 groupsPs2 [] mergedGroups s = Inr (mergedGroups, s)"
| "merge_groups J groupsPs1 groupsPs2 (name # names) mergedGroups s =
     (case groupsPs1 name of
        None \<Rightarrow> merge_groups J groupsPs1 groupsPs2 names mergedGroups s
      | Some g1 \<Rightarrow>
          (case groupsPs2 name of
             Some g2 \<Rightarrow>
               (case MergePanels J g1 g2 s of
                  Inl e \<Rightarrow> Inl e
                | Inr (m, s1) \<Rightarrow>
                    merge_groups J groupsPs1 groupsPs2 names (mergedGroups(name \<mapsto> m)) s1)
           | None \<Rightarrow>
               merge_groups J groupsPs1 groupsPs2 names (mergedGroups(name \<mapsto> g1)) s))"

text \<open>
  \<^verbatim>\<open>for title, panels := range mergedGroups\<close>: the groups whose row is only in \<open>ps2\<close>.
  \<open>onlyPs2\<close> holds the titles that are keys of \<open>rowsPs2\<close> and not of \<open>rowsPs1\<close>, and
  is only asked for membership.
\<close>

fun new_groups ::
  "(string \<rightharpoonup> addr) \<Rightarrow> (string \<rightharpoonup> addr) \<Rightarrow> (string \<rightharpoonup> addr list) \<Rightarrow> string list \<Rightarrow>
   addr list \<times> (string \<Rightarrow> bool) \<Rightarrow> addr list \<times> (string \<Rightarrow> bool)"
where
  "new_groups rowsPs1 rowsPs2 mergedGroups [] st = st"
| "new_groups rowsPs1 rowsPs2 mergedGroups (title # titles) (tmp1, seen) =
     (case (mergedGroups title, rowsPs2 title) of
        (Some panels, Some header) \<Rightarrow>
          if rowsPs1 title = None then
            new_groups rowsPs1 rowsPs2 mergedGroups titles
              (tmp1 @ [header] @ panels, seen(title := True))
          else new_groups rowsPs1 rowsPs2 mergedGroups titles (tmp1, seen)
      | _ \<Rightarrow> new_groups rowsPs1 rowsPs2 mergedGroups titles (tmp1, seen))"

text \<open>
  The title the walk over \<open>ps1\<close> gives a row: \<open>none\<close> when the title is nil, the
  decoded string otherwise, which is empty when decoding fails.
\<close>

definition row_title :: "codec \<Rightarrow> Panel \<Rightarrow> string" where
  "row_title J p =
     (case TitleRaw p of
        None \<Rightarrow> ''none''
      | Some tr \<Rightarrow> (case unmarshal_string J tr of None \<Rightarrow> [] | Some title \<Rightarrow> title))"

definition is_row :: "codec \<Rightarrow> Panel \<Rightarrow> bool" where
  "is_row J p \<longleftrightarrow>
     (case TypeRaw p of
        None \<Rightarrow> False
      | Some t \<Rightarrow> unmarshal_string J t = Some ''row'')"

text \<open>\<^verbatim>\<open>for _, p := range ps1\<close>: the row headers of \<open>ps1\<close> in their order.\<close>

fun existing_groups ::
  "codec \<Rightarrow> store \<Rightarrow> (string \<rightharpoonup> addr) \<Rightarrow> (string \<rightharpoonup> addr) \<Rightarrow> (string \<rightharpoonup> addr list) \<Rightarrow>
   addr list \<Rightarrow> addr list \<times> (string \<Rightarrow> bool) \<Rightarrow> addr list \<times> (string \<Rightarrow> bool)"
where
  "existing_groups J s rowsPs1 rowsPs2 mergedGroups [] st = st"
| "existing_groups J s rowsPs1 rowsPs2 mergedGroups (p # ps) (tmp2, seen) =
     (if is_row J (s p) then
        (let title = row_title J (s p);
             header = (case rowsPs1 title of
                         Some header \<Rightarrow> header
                       | None \<Rightarrow> (case rowsPs2 title of Some header \<Rightarrow> header | None \<Rightarrow> p));
             tmp2a = tmp2 @ [header]
         in if \<not> seen title then
              existing_groups J s rowsPs1 rowsPs2 mergedGroups ps
                (tmp2a @ group_of mergedGroups title, seen(title := True))
            else existing_groups J s rowsPs1 rowsPs2 mergedGroups ps (tmp2a, seen))
      else existing_groups J s rowsPs1 rowsPs2 mergedGroups ps (tmp2, seen))"

text \<open>The last loop: shelf packing on a grid of width 24.\<close>

record layout =
  currentY :: goint
  currentRowWidth :: goint
  currentRowMaxBottom :: goint

definition maxWidth :: goint where
  "maxWidth = 24"

definition new_row :: "layout \<Rightarrow> goint \<Rightarrow> bool" where
  "new_row st w \<longleftrightarrow> maxWidth <s currentRowWidth st + w"

definition place :: "layout \<Rightarrow> GridPos \<Rightarrow> GridPos \<times> layout" where
  "place st pos =
     (let st1 = (if new_row st (W pos)
                 then \<lparr>currentY = currentY st + currentRowMaxBottom st,
                       currentRowWidth = 0, currentRowMaxBottom = 0\<rparr>
                 else st);
          pos1 = pos\<lparr>X := currentRowWidth st1, Y := currentY st1\<rparr>
      in (pos1,
          st1\<lparr>currentRowWidth := currentRowWidth st1 + W pos1,
              currentRowMaxBottom :=
                (if currentRowMaxBottom st1 <s H pos1 then H pos1
                 else currentRowMaxBottom st1)\<rparr>))"

fun repack :: "codec \<Rightarrow> addr list \<Rightarrow> layout \<Rightarrow> store \<Rightarrow> error + (layout \<times> store)" where
  "repack J [] st s = Inr (st, s)"
| "repack J (panel # res) st s =
     (case getGridPos J (s panel) of
        Inl e \<Rightarrow> Inl e
      | Inr pos \<Rightarrow>
          (case place st pos of
             (pos1, st1) \<Rightarrow>
               repack J res st1 (assign s panel ''gridPos'' (Some (marshal_GridPos J pos1)))))"

definition initial_layout :: layout where
  "initial_layout = \<lparr>currentY = 0, currentRowWidth = 0, currentRowMaxBottom = 0\<rparr>"

text \<open>Everything up to the assembled sequence \<open>res\<close>, before the positions are rewritten.\<close>

record merged =
  rowsPs1 :: "string \<rightharpoonup> addr"
  rowsPs2 :: "string \<rightharpoonup> addr"
  mergedGroups :: "string \<rightharpoonup> addr list"

definition merge_by_group ::
  "codec \<Rightarrow> iteration \<Rightarrow> addr list \<Rightarrow> addr list \<Rightarrow> heap \<Rightarrow> error + (merged \<times> store)"
where
  "merge_by_group J it ps1 ps2 h =
     (case groupByRow J ps1 h of
        ((groupsPs1, rows1), h1) \<Rightarrow>
          (case groupByRow J ps2 h1 of
             ((groupsPs2, rows2), h2) \<Rightarrow>
               (case merge_groups J groupsPs1 groupsPs2 (groupsPs1_order it) Map.empty (fst h2) of
                  Inl e \<Rightarrow> Inl e
                | Inr (m, s) \<Rightarrow>
                    Inr (\<lparr>rowsPs1 = rows1, rowsPs2 = rows2, mergedGroups = groupsPs2 ++ m\<rparr>, s))))"

definition assemble ::
  "codec \<Rightarrow> iteration \<Rightarrow> addr list \<Rightarrow> bool \<Rightarrow> merged \<Rightarrow> store \<Rightarrow> addr list"
where
  "assemble J it ps1 top_flag M s =
     (case new_groups (rowsPs1 M) (rowsPs2 M) (mergedGroups M) (mergedGroups_order it)
             ([], \<lambda>title. False) of
        (tmp1, seen) \<Rightarrow>
          (case existing_groups J s (rowsPs1 M) (rowsPs2 M) (mergedGroups M) ps1 ([], seen) of
             (tmp2, seen') \<Rightarrow>
               group_of (mergedGroups M) ''none'' @
               (if top_flag then tmp1 @ tmp2 else tmp2 @ tmp1)))"

definition MergePanelsByGroup ::
  "codec \<Rightarrow> iteration \<Rightarrow> addr list \<Rightarrow> addr list \<Rightarrow> bool \<Rightarrow> heap \<Rightarrow>
   error + (addr list \<times> store)"
where
  "MergePanelsByGroup J it ps1 ps2 top_flag h =
     (case merge_by_group J it ps1 ps2 h of
        Inl e \<Rightarrow> Inl e
      | Inr (M, s) \<Rightarrow>
          (let res = assemble J it ps1 top_flag M s in
           case repack J res initial_layout s of
             Inl e \<Rightarrow> Inl e
           | Inr (st, s') \<Rightarrow> Inr (res, s')))"

section \<open>A concrete codec\<close>

text \<open>
  An instance of the codec for documents in the compact form that \<^verbatim>\<open>json.Marshal\<close>
  writes: no insignificant white space, strings of printable ASCII without
  escapes, integers in decimal, a rectangle with its keys in the order
  \<open>h, w, x, y\<close>, and panels whose values are strings, integers, \<^verbatim>\<open>true\<close>, \<^verbatim>\<open>false\<close>,
  \<^verbatim>\<open>null\<close> or objects of these. On these documents it returns what \<^verbatim>\<open>encoding/json\<close> returns. The
  general theorems hold for every codec; this one evaluates the code on concrete
  dashboards.
\<close>

definition is_digit :: "char \<Rightarrow> bool" where
  "is_digit c \<longleftrightarrow> 48 \<le> (of_char c :: nat) \<and> (of_char c :: nat) \<le> 57"

definition digit_of :: "nat \<Rightarrow> char" where
  "digit_of d = char_of (48 + d)"

fun show_nat :: "nat \<Rightarrow> string" where
  "show_nat n = (if n < 10 then [digit_of n] else show_nat (n div 10) @ [digit_of (n mod 10)])"

declare show_nat.simps [simp del]

definition show_int :: "int \<Rightarrow> string" where
  "show_int i = (if i < 0 then CHR ''-'' # show_nat (nat (- i)) else show_nat (nat i))"

definition parse_nat :: "string \<Rightarrow> nat" where
  "parse_nat ds = foldl (\<lambda>a c. 10 * a + (of_char c - 48)) 0 ds"

definition take_int :: "string \<Rightarrow> (int \<times> string) option" where
  "take_int bs =
     (let neg = (case bs of [] \<Rightarrow> False | c # r \<Rightarrow> c = CHR ''-'');
          r = (if neg then tl bs else bs);
          ds = takeWhile is_digit r
      in if ds = [] \<or> (1 < length ds \<and> hd ds = CHR ''0'') then None
         else Some (if neg then - int (parse_nat ds) else int (parse_nat ds),
                    dropWhile is_digit r))"

definition strip :: "string \<Rightarrow> string \<Rightarrow> string option" where
  "strip pre bs = (if take (length pre) bs = pre then Some (drop (length pre) bs) else None)"

definition take_field :: "string \<Rightarrow> string \<Rightarrow> (goint \<times> string) option" where
  "take_field name bs =
     (case strip name bs of
        None \<Rightarrow> None
      | Some r \<Rightarrow>
          (case take_int r of
             None \<Rightarrow> None
           | Some (i, r') \<Rightarrow>
               if - (2 ^ 63) \<le> i \<and> i < 2 ^ 63 then Some (word_of_int i, r') else None))"

definition json_marshal_GridPos :: "GridPos \<Rightarrow> string" where
  \<open>json_marshal_GridPos g =
     ''{"h":'' @ show_int (sint (H g)) @ '',"w":'' @ show_int (sint (W g)) @
     '',"x":'' @ show_int (sint (X g)) @ '',"y":'' @ show_int (sint (Y g)) @ ''}''\<close>

definition json_unmarshal_GridPos :: "string \<Rightarrow> GridPos option" where
  \<open>json_unmarshal_GridPos bs =
     (if bs = ''null'' then Some zero_GridPos
      else
       (case take_field ''{"h":'' bs of
          None \<Rightarrow> None
        | Some (h, r1) \<Rightarrow>
       (case take_field '',"w":'' r1 of
          None \<Rightarrow> None
        | Some (w, r2) \<Rightarrow>
       (case take_field '',"x":'' r2 of
          None \<Rightarrow> None
        | Some (x, r3) \<Rightarrow>
       (case take_field '',"y":'' r3 of
          None \<Rightarrow> None
        | Some (y, r4) \<Rightarrow>
            if r4 = ''}'' then Some \<lparr>H = h, W = w, X = x, Y = y\<rparr> else None)))))\<close>

definition plain_char :: "char \<Rightarrow> bool" where
  \<open>plain_char c \<longleftrightarrow>
     32 \<le> (of_char c :: nat) \<and> (of_char c :: nat) < 127 \<and> c \<noteq> CHR ''"'' \<and> c \<noteq> CHR 0x5C\<close>

definition json_unmarshal_string :: "string \<Rightarrow> string option" where
  \<open>json_unmarshal_string bs =
     (if bs = ''null'' then Some []
      else
        (case bs of
           [] \<Rightarrow> None
         | c # r \<Rightarrow>
             if c = CHR ''"'' \<and> r \<noteq> [] \<and> last r = CHR ''"'' \<and> list_all plain_char (butlast r)
             then Some (butlast r) else None))\<close>

text \<open>A string token: its body and the bytes after the closing quote.\<close>

definition take_str :: "string \<Rightarrow> (string \<times> string) option" where
  \<open>take_str bs =
     (case bs of
        [] \<Rightarrow> None
      | c # r \<Rightarrow>
          if c = CHR ''"'' then
            (case dropWhile plain_char r of
               [] \<Rightarrow> None
             | d # r' \<Rightarrow> if d = CHR ''"'' then Some (takeWhile plain_char r, r') else None)
          else None)\<close>

text \<open>A scalar value: its raw bytes and the bytes after it.\<close>

definition take_scalar :: "string \<Rightarrow> (string \<times> string) option" where
  \<open>take_scalar bs =
     (case take_str bs of
        Some (body, r) \<Rightarrow> Some (CHR ''"'' # body @ [CHR ''"''], r)
      | None \<Rightarrow>
     (case strip ''true'' bs of
        Some r \<Rightarrow> Some (''true'', r)
      | None \<Rightarrow>
     (case strip ''false'' bs of
        Some r \<Rightarrow> Some (''false'', r)
      | None \<Rightarrow>
     (case strip ''null'' bs of
        Some r \<Rightarrow> Some (''null'', r)
      | None \<Rightarrow>
     (case take_int bs of
        Some (i, r) \<Rightarrow> Some (take (length bs - length r) bs, r)
      | None \<Rightarrow> None)))))\<close>

text \<open>
  The members of an object of scalars after its opening brace: the bytes after
  the closing brace. The first argument bounds the work.
\<close>

fun skip_members :: "nat \<Rightarrow> string \<Rightarrow> string option" where
  "skip_members 0 bs = None"
| "skip_members (Suc n) bs =
     (case take_str bs of
        None \<Rightarrow> None
      | Some (k, r) \<Rightarrow>
     (case strip '':'' r of
        None \<Rightarrow> None
      | Some r1 \<Rightarrow>
     (case take_scalar r1 of
        None \<Rightarrow> None
      | Some (v, r2) \<Rightarrow>
     (case r2 of
        [] \<Rightarrow> None
      | c # r3 \<Rightarrow>
          if c = CHR '','' then skip_members n r3
          else if c = CHR ''}'' then Some r3
          else None))))"

text \<open>A value of a panel: a scalar or an object of scalars, as raw bytes.\<close>

definition take_value :: "string \<Rightarrow> (string \<times> string) option" where
  "take_value bs =
     (case take_scalar bs of
        Some x \<Rightarrow> Some x
      | None \<Rightarrow>
          (case strip ''{'' bs of
             None \<Rightarrow> None
           | Some r \<Rightarrow>
               (case (case strip ''}'' r of
                        Some r' \<Rightarrow> Some r'
                      | None \<Rightarrow> skip_members (length r) r) of
                  None \<Rightarrow> None
                | Some rest \<Rightarrow> Some (take (length bs - length rest) bs, rest))))"

text \<open>The members of an object after its opening brace; the first argument bounds the work.\<close>

fun take_members :: "nat \<Rightarrow> string \<Rightarrow> Panel \<Rightarrow> (Panel \<times> string) option" where
  "take_members 0 bs p = None"
| "take_members (Suc n) bs p =
     (case take_str bs of
        None \<Rightarrow> None
      | Some (k, r) \<Rightarrow>
     (case strip '':'' r of
        None \<Rightarrow> None
      | Some r1 \<Rightarrow>
     (case take_value r1 of
        None \<Rightarrow> None
      | Some (v, r2) \<Rightarrow>
     (case r2 of
        [] \<Rightarrow> None
      | c # r3 \<Rightarrow>
          if c = CHR '','' then take_members n r3 (p(k \<mapsto> Some v))
          else if c = CHR ''}'' then Some (p(k \<mapsto> Some v), r3)
          else None))))"

definition take_object :: "string \<Rightarrow> (Panel \<times> string) option" where
  "take_object bs =
     (case strip ''{'' bs of
        None \<Rightarrow> None
      | Some r \<Rightarrow>
          (case strip ''}'' r of
             Some r' \<Rightarrow> Some (Map.empty, r')
           | None \<Rightarrow> take_members (length r) r Map.empty))"

fun take_objects :: "nat \<Rightarrow> string \<Rightarrow> (Panel list \<times> string) option" where
  "take_objects 0 bs = None"
| "take_objects (Suc n) bs =
     (case take_object bs of
        None \<Rightarrow> None
      | Some (p, r) \<Rightarrow>
          (case r of
             [] \<Rightarrow> None
           | c # r' \<Rightarrow>
               if c = CHR '','' then
                 (case take_objects n r' of
                    None \<Rightarrow> None
                  | Some (ps, r'') \<Rightarrow> Some (p # ps, r''))
               else if c = CHR '']'' then Some ([p], r')
               else None))"

definition json_unmarshal_Panels :: "string \<Rightarrow> Panel list option" where
  "json_unmarshal_Panels bs =
     (if bs = ''null'' \<or> bs = ''[]'' then Some []
      else
        (case strip ''['' bs of
           None \<Rightarrow> None
         | Some r \<Rightarrow>
             (case take_objects (length r) r of
                Some (ps, []) \<Rightarrow> Some ps
              | _ \<Rightarrow> None)))"

definition json :: codec where
  "json = \<lparr>unmarshal_string = json_unmarshal_string,
           unmarshal_GridPos = json_unmarshal_GridPos,
           marshal_GridPos = json_marshal_GridPos,
           unmarshal_Panels = json_unmarshal_Panels\<rparr>"

text \<open>A panel from its members, and a store holding the given panels at 0, 1, \<dots>\<close>

definition panel :: "(string \<times> string) list \<Rightarrow> Panel" where
  "panel kvs = map_of (map (\<lambda>(k, v). (k, Some v)) kvs)"

definition store_of :: "Panel list \<Rightarrow> store" where
  "store_of ps = (\<lambda>a. if a < length ps then ps ! a else Map.empty)"

definition heap_of :: "Panel list \<Rightarrow> heap" where
  "heap_of ps = (store_of ps, length ps)"

section \<open>Notions used in the statements\<close>

text \<open>The identity key of the panel at an address: the bytes of its title and type.\<close>

definition key :: "store \<Rightarrow> addr \<Rightarrow> string \<times> string" where
  "key s a = (bytes_of (index (s a) ''title''), bytes_of (index (s a) ''type''))"

text \<open>The raw rectangle and id of the panel at an address.\<close>

definition layout_id :: "store \<Rightarrow> addr \<Rightarrow> RawMessage \<times> RawMessage" where
  "layout_id s a = (GridPosRaw (s a), IDRaw (s a))"

text \<open>
  The bottom edge \<open>gp.Y + gp.H\<close> of a panel, in Go's arithmetic (0 where the rectangle
  does not decode and \<^verbatim>\<open>GridPos()\<close> panics).
\<close>

definition bottom_edge :: "codec \<Rightarrow> Panel \<Rightarrow> goint" where
  "bottom_edge J p = (case getGridPos J p of Inl e \<Rightarrow> 0 | Inr gp \<Rightarrow> Y gp + H gp)"

text \<open>The panels of a list that have a given key, in their order.\<close>

definition with_key :: "(addr \<Rightarrow> 'k) \<Rightarrow> 'k \<Rightarrow> addr list \<Rightarrow> addr list" where
  "with_key K k rs = filter (\<lambda>r. K r = k) rs"

text \<open>
  Panels for \<^verbatim>\<open>MergePanels\<close>: a base dashboard at 0, 1, 2 with two panels titled CPU,
  and incoming panels at 3 to 6, two of them titled CPU as well.
\<close>

definition merge_panels :: "Panel list" where
  \<open>merge_panels =
     [panel [(''id'', ''1''), (''title'', ''"CPU"''), (''type'', ''"graph"''),
             (''gridPos'', ''{"h":8,"w":12,"x":0,"y":0}'')],
      panel [(''id'', ''2''), (''title'', ''"CPU"''), (''type'', ''"graph"''),
             (''gridPos'', ''{"h":4,"w":12,"x":12,"y":0}'')],
      panel [(''id'', ''3''), (''title'', ''"Mem"''), (''type'', ''"graph"''),
             (''gridPos'', ''{"h":8,"w":24,"x":0,"y":8}'')],
      panel [(''title'', ''"CPU"''), (''type'', ''"graph"''), (''extra'', ''"v2"'')],
      panel [(''title'', ''"CPU"''), (''type'', ''"graph"''), (''extra'', ''"v3"'')],
      panel [(''title'', ''"Disk"''), (''type'', ''"graph"'')],
      panel [(''title'', ''"Net"''), (''type'', ''"graph"'')]]\<close>

text \<open>
  The rectangle \<^verbatim>\<open>GridPos()\<close> returns for a panel (the zero rectangle where it panics).
\<close>

definition rect :: "codec \<Rightarrow> Panel \<Rightarrow> GridPos" where
  "rect J p = (case getGridPos J p of Inl e \<Rightarrow> zero_GridPos | Inr g \<Rightarrow> g)"

text \<open>
  The rectangles the last loop places, as far as the current row goes: \<open>shelf\<close> runs
  \<open>place\<close> over the rectangles and keeps, next to the loop's variables, those placed
  since the last new row.
\<close>

fun shelf :: "layout \<times> GridPos list \<Rightarrow> GridPos list \<Rightarrow> layout \<times> GridPos list" where
  "shelf (st, row) [] = (st, row)"
| "shelf (st, row) (p # ps) =
     (case place st p of
        (p1, st1) \<Rightarrow> shelf (st1, (if new_row st (W p) then [] else row) @ [p1]) ps)"

text \<open>The cumulative width of a row and its largest height, as integers.\<close>

definition width_sum :: "GridPos list \<Rightarrow> int" where
  "width_sum row = sum_list (map (\<lambda>r. sint (W r)) row)"

definition max_height :: "GridPos list \<Rightarrow> int" where
  "max_height row = Max (insert 0 ((\<lambda>r. sint (H r)) ` set row))"

text \<open>What the loop's variables say about the current row.\<close>

definition row_inv :: "layout \<times> GridPos list \<Rightarrow> bool" where
  "row_inv x = (case x of (st, row) \<Rightarrow>
     sint (currentRowWidth st) = width_sum row \<and> 0 \<le> width_sum row \<and> width_sum row \<le> 24 \<and>
     sint (currentRowMaxBottom st) = max_height row \<and>
     list_all (\<lambda>r. Y r = currentY st) row)"

text \<open>The panel at an address decodes, with the width and height of a reference rectangle.\<close>

definition same_size :: "codec \<Rightarrow> (addr \<Rightarrow> GridPos) \<Rightarrow> store \<Rightarrow> addr \<Rightarrow> bool" where
  "same_size J R s a \<longleftrightarrow>
     (case getGridPos J (s a) of Inl e \<Rightarrow> False | Inr g \<Rightarrow> W g = W (R a) \<and> H g = H (R a))"

text \<open>The type of a panel as \<^verbatim>\<open>groupByRow\<close> reads it, and the panels it takes as content.\<close>

definition panel_type :: "codec \<Rightarrow> Panel \<Rightarrow> string option" where
  "panel_type J p = (case TypeRaw p of None \<Rightarrow> None | Some t \<Rightarrow> unmarshal_string J t)"

definition is_content :: "codec \<Rightarrow> Panel \<Rightarrow> bool" where
  "is_content J p = (case panel_type J p of None \<Rightarrow> False | Some ty \<Rightarrow> ty \<noteq> ''row'')"

text \<open>The group name \<^verbatim>\<open>groupByRow\<close> continues with at a row.\<close>

definition group_name :: "codec \<Rightarrow> string \<Rightarrow> Panel \<Rightarrow> string" where
  "group_name J current p =
     (case TitleRaw p of
        None \<Rightarrow> current
      | Some tr \<Rightarrow> (case unmarshal_string J tr of None \<Rightarrow> current | Some title \<Rightarrow> title))"

text \<open>The title of a panel decodes to the string \<open>k\<close>.\<close>

definition titled :: "codec \<Rightarrow> Panel \<Rightarrow> string \<Rightarrow> bool" where
  "titled J p k = (case TitleRaw p of None \<Rightarrow> False | Some tr \<Rightarrow> unmarshal_string J tr = Some k)"

text \<open>Two panels that agree on title and type.\<close>

definition same_head :: "Panel \<Rightarrow> Panel \<Rightarrow> bool" where
  "same_head p q \<longleftrightarrow> p ''type'' = q ''type'' \<and> p ''title'' = q ''title''"

text \<open>
  The header the walk over \<open>ps1\<close> emits for a row, and the block the walk builds:
  for each row marker of \<open>ps1\<close> its header, followed by the merged group of its
  title when the title was not seen before.
\<close>

definition header_of :: "(string \<rightharpoonup> addr) \<Rightarrow> (string \<rightharpoonup> addr) \<Rightarrow> string \<Rightarrow> addr \<Rightarrow> addr" where
  "header_of rows1 rows2 title p =
     (case rows1 title of
        Some header \<Rightarrow> header
      | None \<Rightarrow> (case rows2 title of Some header \<Rightarrow> header | None \<Rightarrow> p))"

definition existing_block ::
  "codec \<Rightarrow> store \<Rightarrow> (string \<rightharpoonup> addr) \<Rightarrow> (string \<rightharpoonup> addr) \<Rightarrow> (string \<rightharpoonup> addr list) \<Rightarrow>
   (string \<Rightarrow> bool) \<Rightarrow> addr list \<Rightarrow> addr list"
where
  "existing_block J s rows1 rows2 merged seen ps =
     (let markers = filter (\<lambda>p. is_row J (s p)) ps;
          titles = map (\<lambda>p. row_title J (s p)) markers
      in concat (map (\<lambda>i. header_of rows1 rows2 (titles ! i) (markers ! i) #
                          (if \<not> seen (titles ! i) \<and> titles ! i \<notin> set (take i titles)
                           then group_of merged (titles ! i) else []))
                  [0..<length markers]))"

text \<open>The variables of \<^verbatim>\<open>groupByRow\<close> before its loop.\<close>

definition initial_grouping :: grouping where
  "initial_grouping = \<lparr>groups = Map.empty, rows = Map.empty, groupName = ''none''\<rparr>"

text \<open>Dashboards for \<^verbatim>\<open>MergePanelsByGroup\<close> and \<^verbatim>\<open>groupByRow\<close>.\<close>

definition two_new_rows :: "Panel list" where
  \<open>two_new_rows =
     [panel [(''title'', ''"A"''), (''type'', ''"row"'')],
      panel [(''title'', ''"X"''), (''type'', ''"graph"''),
             (''gridPos'', ''{"h":8,"w":12,"x":0,"y":1}'')],
      panel [(''title'', ''"B"''), (''type'', ''"row"'')],
      panel [(''title'', ''"Y"''), (''type'', ''"graph"''),
             (''gridPos'', ''{"h":8,"w":12,"x":0,"y":10}'')]]\<close>

definition untitled_row :: "Panel list" where
  \<open>untitled_row =
     [panel [(''title'', ''"A"''), (''type'', ''"row"''),
             (''panels'', ''[{"title":"N1","type":"graph"}]'')],
      panel [(''type'', ''"row"''),
             (''panels'', ''[{"title":"N2","type":"graph"}]'')]]\<close>

definition repeated_row :: "Panel list" where
  \<open>repeated_row =
     [panel [(''title'', ''"A"''), (''type'', ''"row"'')],
      panel [(''title'', ''"X"''), (''type'', ''"graph"''),
             (''gridPos'', ''{"h":8,"w":12,"x":0,"y":1}'')],
      panel [(''title'', ''"A"''), (''type'', ''"row"'')],
      panel [(''title'', ''"Y"''), (''type'', ''"graph"''),
             (''gridPos'', ''{"h":8,"w":12,"x":0,"y":10}'')]]\<close>


definition none_row :: "Panel list" where
  \<open>none_row =
     [panel [(''title'', ''"X"''), (''type'', ''"graph"''),
             (''gridPos'', ''{"h":8,"w":12,"x":0,"y":0}'')],
      panel [(''title'', ''"none"''), (''type'', ''"row"'')],
      panel [(''title'', ''"Y"''), (''type'', ''"graph"''),
             (''gridPos'', ''{"h":8,"w":12,"x":12,"y":0}'')]]\<close>



section \<open>The concrete codec decodes what it encodes\<close>

lemma of_char_digit_of: "d < 10 \<Longrightarrow> (of_char (digit_of d) :: nat) = 48 + d"
  by (simp add: digit_of_def)

lemma is_digit_digit_of: "d < 10 \<Longrightarrow> is_digit (digit_of d)"
  by (simp add: is_digit_def of_char_digit_of)

lemma show_nat_digits: "list_all is_digit (show_nat n)"
proof (induction n rule: show_nat.induct)
  case (1 n)
  show ?case
  proof (cases "n < 10")
    case True
    then show ?thesis by (subst show_nat.simps) (simp add: is_digit_digit_of)
  next
    case False
    with 1 have "list_all is_digit (show_nat (n div 10))" by simp
    moreover have "is_digit (digit_of (n mod 10))" by (simp add: is_digit_digit_of)
    ultimately show ?thesis using False by (subst show_nat.simps) simp
  qed
qed

lemma show_nat_nonempty: "show_nat n \<noteq> []"
  by (subst show_nat.simps) simp

lemma parse_nat_snoc: "parse_nat (ds @ [c]) = 10 * parse_nat ds + (of_char c - 48)"
  by (simp add: parse_nat_def)

lemma parse_show_nat: "parse_nat (show_nat n) = n"
proof (induction n rule: show_nat.induct)
  case (1 n)
  show ?case
  proof (cases "n < 10")
    case True
    then show ?thesis by (subst show_nat.simps) (simp add: parse_nat_def of_char_digit_of)
  next
    case False
    with 1 have "parse_nat (show_nat (n div 10)) = n div 10" by simp
    then have "parse_nat (show_nat (n div 10) @ [digit_of (n mod 10)]) = n"
      by (simp add: parse_nat_snoc of_char_digit_of)
    with False show ?thesis by (subst show_nat.simps) simp
  qed
qed

lemma hd_show_nat: "hd (show_nat n) = CHR ''0'' \<Longrightarrow> n = 0"
proof (induction n rule: show_nat.induct)
  case (1 n)
  show ?case
  proof (cases "n < 10")
    case True
    with 1(2) have "digit_of n = CHR ''0''" by (subst (asm) show_nat.simps) simp
    then have "(of_char (digit_of n) :: nat) = 48" by simp
    with True show ?thesis by (simp add: of_char_digit_of)
  next
    case False
    with 1(2) have "hd (show_nat (n div 10) @ [digit_of (n mod 10)]) = CHR ''0''"
      by (subst (asm) show_nat.simps) simp
    then have "hd (show_nat (n div 10)) = CHR ''0''"
      by (simp add: show_nat_nonempty)
    with 1(1) False have "n div 10 = 0" by simp
    with False show ?thesis by simp
  qed
qed

lemma length_show_nat_0: "length (show_nat 0) = 1"
  by (subst show_nat.simps) simp

lemma not_digit_minus: "\<not> is_digit CHR ''-''"
  by (simp add: is_digit_def)

lemma hd_show_nat_digit: "is_digit (hd (show_nat n))"
  using show_nat_digits [of n] show_nat_nonempty [of n]
  by (cases "show_nat n") simp_all

lemma takeWhile_digits:
  assumes "list_all is_digit ds" and "rest = [] \<or> \<not> is_digit (hd rest)"
  shows "takeWhile is_digit (ds @ rest) = ds" and "dropWhile is_digit (ds @ rest) = rest"
proof -
  from assms(2) have "takeWhile is_digit rest = []" "dropWhile is_digit rest = rest"
    by (cases rest; auto)+
  with assms(1) show "takeWhile is_digit (ds @ rest) = ds" "dropWhile is_digit (ds @ rest) = rest"
    by (simp_all add: list_all_iff takeWhile_append2 dropWhile_append2)
qed

lemma take_nat_show:
  assumes "rest = [] \<or> \<not> is_digit (hd rest)"
  shows "takeWhile is_digit (show_nat n @ rest) = show_nat n"
    and "dropWhile is_digit (show_nat n @ rest) = rest"
  using takeWhile_digits [OF show_nat_digits assms] by simp_all

lemma no_leading_zero: "\<not> (1 < length (show_nat n) \<and> hd (show_nat n) = CHR ''0'')"
proof
  assume a: "1 < length (show_nat n) \<and> hd (show_nat n) = CHR ''0''"
  then have "n = 0" by (simp add: hd_show_nat)
  with a show False by (simp add: length_show_nat_0)
qed

lemma take_int_show:
  assumes "rest = [] \<or> \<not> is_digit (hd rest)"
  shows "take_int (show_int i @ rest) = Some (i, rest)"
proof (cases "i < 0")
  case True
  then have "show_int i @ rest = CHR ''-'' # (show_nat (nat (- i)) @ rest)"
    by (simp add: show_int_def)
  with True take_nat_show [OF assms, of "nat (- i)"] no_leading_zero [of "nat (- i)"]
  show ?thesis
    by (simp add: take_int_def Let_def show_nat_nonempty parse_show_nat)
next
  case False
  obtain c cs where cs: "show_nat (nat i) = c # cs"
    using show_nat_nonempty [of "nat i"] by (cases "show_nat (nat i)") auto
  with hd_show_nat_digit [of "nat i"] have c: "c \<noteq> CHR ''-''"
    using not_digit_minus by auto
  from False have eq: "show_int i @ rest = show_nat (nat i) @ rest"
    by (simp add: show_int_def)
  have neg: "(case show_nat (nat i) @ rest of [] \<Rightarrow> False | c # r \<Rightarrow> c = CHR ''-'') = False"
    using cs c by simp
  show ?thesis
    unfolding eq take_int_def Let_def neg
    using False take_nat_show [OF assms, of "nat i"] no_leading_zero [of "nat i"]
    by (simp add: show_nat_nonempty parse_show_nat)
qed

lemma strip_append: "strip pre (pre @ bs) = Some bs"
  by (simp add: strip_def)

lemma take_field_show:
  assumes "rest = [] \<or> \<not> is_digit (hd rest)"
  shows "take_field name (name @ show_int (sint (w :: goint)) @ rest) = Some (w, rest)"
proof -
  have "- (2 ^ 63) \<le> sint w" "sint w < 2 ^ 63"
    using sint_ge [of w] sint_lt [of w] by simp_all
  then show ?thesis
    by (simp add: take_field_def strip_append take_int_show [OF assms])
qed

lemma marshal_not_null: \<open>json_marshal_GridPos g \<noteq> ''null''\<close>
  by (simp add: json_marshal_GridPos_def)

lemma json_GridPos_roundtrip: "json_unmarshal_GridPos (json_marshal_GridPos g) = Some g"
proof -
  have nd: "\<And>c r. \<not> is_digit c \<Longrightarrow> (c # r = [] \<or> \<not> is_digit (hd (c # r)))"
    by simp
  have c1: "\<not> is_digit CHR '',''" and c2: "\<not> is_digit CHR ''}''"
    by (simp_all add: is_digit_def)
  show ?thesis
    unfolding json_unmarshal_GridPos_def
    apply (simp only: marshal_not_null if_False)
    apply (simp only: json_marshal_GridPos_def)
    apply (subst take_field_show)
     apply (simp add: c1)
    apply (simp only: option.case prod.case)
    apply (subst take_field_show)
     apply (simp add: c1)
    apply (simp only: option.case prod.case)
    apply (subst take_field_show)
     apply (simp add: c1)
    apply (simp only: option.case prod.case)
    apply (subst take_field_show)
     apply (simp add: c2)
    apply simp
    done
qed

section \<open>MergePanels: identity keys and slots\<close>

lemma Equals_key: "Equals (s a) (t b) \<longleftrightarrow> key s a = key t b"
  by (auto simp: Equals_def key_def bytes_Equal_def)

lemma index_assign:
  "index (assign s a k v x) k' = (if x = a \<and> k' = k then v else index (s x) k')"
  by (simp add: assign_def index_def)

lemma key_assign_gridPos [simp]: "key (assign s a ''gridPos'' v) = key s"
  by (rule ext) (simp add: key_def index_assign)

lemma key_assign_id [simp]: "key (assign s a ''id'' v) = key s"
  by (rule ext) (simp add: key_def index_assign)

lemma overwrite_key:
  "overwrite s p2 rs = (rs', s', m) \<Longrightarrow> key s' = key s"
  by (induction rs arbitrary: s rs' s' m)
     (auto split: if_splits prod.splits simp: Let_def)

lemma overwrite_slots:
  "overwrite s p2 rs = (rs', s', m) \<Longrightarrow>
     rs' = map (\<lambda>r. if key s r = key s p2 then p2 else r) rs \<and>
     (m \<longleftrightarrow> key s p2 \<in> key s ` set rs)"
proof (induction rs arbitrary: s rs' s' m)
  case Nil
  then show ?case by simp
next
  case (Cons r rs)
  show ?case
  proof (cases "Equals (s r) (s p2)")
    case True
    let ?s1 = "assign (assign s p2 ''gridPos'' (GridPosRaw (s r))) p2 ''id'' (IDRaw (s r))"
    obtain rs1 s2 m1 where ov: "overwrite ?s1 p2 rs = (rs1, s2, m1)"
      by (metis prod_cases3)
    from Cons.prems True ov have eq: "rs' = p2 # rs1" "m = True"
      by (simp_all add: Let_def)
    from Cons.IH [OF ov] True eq show ?thesis
      by (simp add: Equals_key)
  next
    case False
    obtain rs1 s2 m1 where ov: "overwrite s p2 rs = (rs1, s2, m1)"
      by (metis prod_cases3)
    from Cons.prems False ov have eq: "rs' = r # rs1" "m = m1"
      by (simp_all add: Let_def)
    from Cons.IH [OF ov] False eq show ?thesis
      by (auto simp add: Equals_key)
  qed
qed

lemma copy_base_res:
  "copy_base J s ps1 maxY res = Inr (m, res') \<Longrightarrow> res' = res @ ps1"
proof (induction ps1 arbitrary: maxY res)
  case Nil
  then show ?case by simp
next
  case (Cons a ps1)
  then obtain gp where gp: "getGridPos J (s a) = Inr gp"
    by (cases "getGridPos J (s a)") auto
  with Cons.prems
  have "copy_base J s ps1 (if maxY <s Y gp + H gp then Y gp + H gp else maxY) (res @ [a]) = Inr (m, res')"
    by simp
  from Cons.IH [OF this] show ?case by simp
qed

lemma copy_base_total:
  "\<forall>a\<in>set ps1. getGridPos J (s a) \<noteq> Inl Panic \<Longrightarrow> \<exists>m. copy_base J s ps1 maxY res = Inr (m, res @ ps1)"
proof (induction ps1 arbitrary: maxY res)
  case Nil then show ?case by simp
next
  case (Cons a ps1)
  then obtain gp where gp: "getGridPos J (s a) = Inr gp"
    by (cases "getGridPos J (s a)") (auto intro: error.exhaust)
  from Cons.IH[of "if maxY <s Y gp + H gp then Y gp + H gp else maxY" "res @ [a]"] Cons.prems gp
  show ?case by simp
qed

lemma merge_step_matched:
  assumes "key s p2 \<in> key s ` set res"
  shows "\<exists>res1 s1. merge_step J p2 (maxY, res, s) = (maxY, res1, s1) \<and>
           map (key s1) res1 = map (key s) res \<and> key s1 = key s"
proof -
  obtain res1 s1 m where ov: "overwrite s p2 res = (res1, s1, m)"
    by (metis prod_cases3)
  note k = overwrite_key [OF ov] and sl = overwrite_slots [OF ov]
  from sl assms have m by simp
  moreover from sl have "map (key s) res1 = map (key s) res" by simp
  ultimately show ?thesis using ov k by (simp add: merge_step_def)
qed

lemma merge_loop_all_matched:
  "key s ` set ps2 \<subseteq> key s ` set res \<Longrightarrow>
   length (fst (snd (merge_loop J ps2 (maxY, res, s)))) = length res"
proof (induction ps2 arbitrary: s res)
  case Nil
  then show ?case by simp
next
  case (Cons p2 ps2)
  then have "key s p2 \<in> key s ` set res" by simp
  from merge_step_matched [OF this, of J maxY]
  obtain res1 s1 where st: "merge_step J p2 (maxY, res, s) = (maxY, res1, s1)"
    and ks: "map (key s1) res1 = map (key s) res" and k: "key s1 = key s"
    by blast
  from ks have "key s1 ` set res1 = key s ` set res"
    by (metis list.set_map)
  with Cons.prems k have "key s1 ` set ps2 \<subseteq> key s1 ` set res1" by simp
  from Cons.IH [OF this] st ks show ?case
    by (simp, metis length_map)
qed

lemma assign_other: "y \<noteq> a \<Longrightarrow> assign s a k v y = s y"
  by (simp add: assign_def)

lemma assign_other_field: "k' \<noteq> k \<Longrightarrow> assign s a k v y k' = s y k'"
  by (simp add: assign_def)

lemma layout_id_assign2:
  "layout_id (assign (assign s p ''gridPos'' g) p ''id'' i) p = (g, i)"
  by (simp add: layout_id_def GridPosRaw_def IDRaw_def index_assign)

lemma layout_id_other: "(\<And>k. t y k = s y k) \<Longrightarrow> layout_id t y = layout_id s y"
  by (simp add: layout_id_def GridPosRaw_def IDRaw_def index_def)

lemma layout_id_cong: "t y = s y \<Longrightarrow> layout_id t y = layout_id s y"
  by (simp add: layout_id_def)

text \<open>What one scan does to the store.\<close>

lemma overwrite_store:
  "overwrite s p2 rs = (rs', s', m) \<Longrightarrow>
     (\<forall>y. y \<noteq> p2 \<longrightarrow> s' y = s y) \<and>
     (\<forall>k. k \<noteq> ''gridPos'' \<longrightarrow> k \<noteq> ''id'' \<longrightarrow> s' p2 k = s p2 k) \<and>
     layout_id s' p2 =
       (if filter (\<lambda>r. r \<noteq> p2) (with_key (key s) (key s p2) rs) = [] then layout_id s p2
        else layout_id s (last (filter (\<lambda>r. r \<noteq> p2) (with_key (key s) (key s p2) rs))))"
proof (induction rs arbitrary: s rs' s' m)
  case Nil
  then show ?case by (simp add: with_key_def)
next
  case (Cons r rs)
  show ?case
  proof (cases "Equals (s r) (s p2)")
    case True
    let ?s1 = "assign (assign s p2 ''gridPos'' (GridPosRaw (s r))) p2 ''id'' (IDRaw (s r))"
    let ?ms = "filter (\<lambda>r. r \<noteq> p2) (with_key (key s) (key s p2) rs)"
    obtain rs1 s2 m1 where ov: "overwrite ?s1 p2 rs = (rs1, s2, m1)"
      by (metis prod_cases3)
    from Cons.prems True ov have eq: "s' = s2"
      by (simp add: Let_def)
    have k1: "key ?s1 = key s" by simp
    note IH = Cons.IH [OF ov, unfolded k1]
    have oth: "\<And>y. y \<noteq> p2 \<Longrightarrow> ?s1 y = s y"
      by (simp add: assign_other)
    have fld: "\<And>k. k \<noteq> ''gridPos'' \<Longrightarrow> k \<noteq> ''id'' \<Longrightarrow> ?s1 p2 k = s p2 k"
      by (simp add: assign_other_field)
    have l1: "layout_id ?s1 p2 = layout_id s r"
      unfolding layout_id_assign2 by (simp add: layout_id_def)
    have lms: "?ms \<noteq> [] \<Longrightarrow> layout_id ?s1 (last ?ms) = layout_id s (last ?ms)"
    proof -
      assume "?ms \<noteq> []"
      then have "last ?ms \<in> set ?ms" by (rule last_in_set)
      then have "last ?ms \<noteq> p2" by simp
      then show ?thesis by (intro layout_id_cong oth)
    qed
    have kr: "key s r = key s p2" using True by (simp add: Equals_key)
    have A: "\<forall>y. y \<noteq> p2 \<longrightarrow> s' y = s y" using IH eq oth by simp
    have B: "\<forall>k. k \<noteq> ''gridPos'' \<longrightarrow> k \<noteq> ''id'' \<longrightarrow> s' p2 k = s p2 k"
      using IH eq fld by simp
    have C: "layout_id s' p2 = (if ?ms = [] then layout_id s r else layout_id s (last ?ms))"
      using IH eq l1 lms by simp
    have D: "filter (\<lambda>r. r \<noteq> p2) (with_key (key s) (key s p2) (r # rs)) =
             (if r = p2 then ?ms else r # ?ms)"
      using kr by (simp add: with_key_def)
    have E: "layout_id s' p2 =
       (if filter (\<lambda>r. r \<noteq> p2) (with_key (key s) (key s p2) (r # rs)) = [] then layout_id s p2
        else layout_id s (last (filter (\<lambda>r. r \<noteq> p2) (with_key (key s) (key s p2) (r # rs)))))"
    proof (cases "r = p2")
      case True
      with C D show ?thesis by simp
    next
      case False
      with C D show ?thesis by simp
    qed
    from A B E show ?thesis by blast
  next
    case False
    obtain rs1 s2 m1 where ov: "overwrite s p2 rs = (rs1, s2, m1)"
      by (metis prod_cases3)
    from Cons.prems False ov have eq: "s' = s2"
      by (simp add: Let_def)
    from False have "key s r \<noteq> key s p2" by (simp add: Equals_key)
    then have "with_key (key s) (key s p2) (r # rs) = with_key (key s) (key s p2) rs"
      by (simp add: with_key_def)
    with Cons.IH [OF ov] eq show ?thesis by simp
  qed
qed


lemma overwrite_no_match:
  "key s p2 \<notin> key s ` set rs \<Longrightarrow> overwrite s p2 rs = (rs, s, False)"
  by (induction rs) (auto simp: Equals_key)

lemma merge_loop_snoc: "merge_loop J (xs @ [x]) st = merge_step J x (merge_loop J xs st)"
  by (induction xs arbitrary: st) simp_all

lemma merge_loop_append: "merge_loop J (xs @ ys) st = merge_loop J ys (merge_loop J xs st)"
  by (induction xs arbitrary: st) simp_all

lemma merge_step_matched_facts:
  assumes "key s p2 \<in> key s ` set res"
    and "merge_step J p2 (maxY, res, s) = (maxY', res', s')"
  shows "maxY' = maxY"
    and "res' = map (\<lambda>r. if key s r = key s p2 then p2 else r) res"
    and "key s' = key s"
    and "\<And>y. y \<noteq> p2 \<Longrightarrow> s' y = s y"
    and "\<And>k. k \<noteq> ''gridPos'' \<Longrightarrow> k \<noteq> ''id'' \<Longrightarrow> s' p2 k = s p2 k"
    and "layout_id s' p2 =
       (if filter (\<lambda>r. r \<noteq> p2) (with_key (key s) (key s p2) res) = [] then layout_id s p2
        else layout_id s (last (filter (\<lambda>r. r \<noteq> p2) (with_key (key s) (key s p2) res))))"
proof -
  obtain res1 s1 m where ov: "overwrite s p2 res = (res1, s1, m)"
    by (metis prod_cases3)
  note k = overwrite_key [OF ov] and sl = overwrite_slots [OF ov] and st = overwrite_store [OF ov]
  from sl assms(1) have m by simp
  with ov assms(2) have eq: "maxY' = maxY" "res' = res1" "s' = s1"
    by (simp_all add: merge_step_def)
  from eq show "maxY' = maxY" by simp
  from eq sl show "res' = map (\<lambda>r. if key s r = key s p2 then p2 else r) res" by simp
  from eq k show "key s' = key s" by simp
  from eq st show "\<And>y. y \<noteq> p2 \<Longrightarrow> s' y = s y" by simp
  from eq st show "\<And>k. k \<noteq> ''gridPos'' \<Longrightarrow> k \<noteq> ''id'' \<Longrightarrow> s' p2 k = s p2 k" by simp
  from eq st show "layout_id s' p2 =
       (if filter (\<lambda>r. r \<noteq> p2) (with_key (key s) (key s p2) res) = [] then layout_id s p2
        else layout_id s (last (filter (\<lambda>r. r \<noteq> p2) (with_key (key s) (key s p2) res))))"
    by simp
qed

lemma merge_step_unmatched_facts:
  assumes "key s p2 \<notin> key s ` set res"
    and "merge_step J p2 (maxY, res, s) = (maxY', res', s')"
  shows "maxY' = maxY + 2"
    and "res' = res @ [p2]"
    and "key s' = key s"
    and "\<And>y. y \<noteq> p2 \<Longrightarrow> s' y = s y"
    and "\<And>k. k \<noteq> ''gridPos'' \<Longrightarrow> s' p2 k = s p2 k"
    and "s' p2 ''gridPos'' = Some (Some (marshal_GridPos J (default_GridPos maxY)))"
proof -
  from assms have eq: "maxY' = maxY + 2" "res' = res @ [p2]"
    "s' = assign s p2 ''gridPos'' (Some (marshal_GridPos J (default_GridPos maxY)))"
    by (simp_all add: merge_step_def overwrite_no_match Let_def default_GridPos_def)
  from eq show "maxY' = maxY + 2" "res' = res @ [p2]" by simp_all
  from eq show "key s' = key s" by simp
  from eq show "\<And>y. y \<noteq> p2 \<Longrightarrow> s' y = s y" by (simp add: assign_other)
  from eq show "\<And>k. k \<noteq> ''gridPos'' \<Longrightarrow> s' p2 k = s p2 k" by (simp add: assign_other_field)
  from eq show "s' p2 ''gridPos'' = Some (Some (marshal_GridPos J (default_GridPos maxY)))"
    by (simp add: assign_def)
qed

lemma with_key_replace:
  "with_key K k (map (\<lambda>r. if K r = K p2 then p2 else r) res) =
     (if K p2 = k then replicate (length (with_key K k res)) p2 else with_key K k res)"
  by (induction res) (auto simp: with_key_def)

lemma with_key_empty: "k \<notin> K ` set res \<Longrightarrow> with_key K k res = []"
  by (auto simp: with_key_def filter_empty_conv)

lemma with_key_set: "set (with_key K k res) = {r \<in> set res. K r = k}"
  by (auto simp: with_key_def)

lemma with_key_append: "with_key K k (xs @ ys) = with_key K k xs @ with_key K k ys"
  by (simp add: with_key_def)

text \<open>The loop keeps the identity keys, and everything but \<open>gridPos\<close> and \<open>id\<close>.\<close>

lemma merge_step_keeps:
  assumes "merge_step J p2 (maxY, res, s) = (maxY', res', s')"
  shows "key s' = key s"
    and "\<And>y k. k \<noteq> ''gridPos'' \<Longrightarrow> k \<noteq> ''id'' \<Longrightarrow> s' y k = s y k"
    and "\<And>y. y \<noteq> p2 \<Longrightarrow> s' y = s y"
proof -
  show "key s' = key s"
    using merge_step_matched_facts(3) [OF _ assms] merge_step_unmatched_facts(3) [OF _ assms]
    by blast
  show y: "\<And>y. y \<noteq> p2 \<Longrightarrow> s' y = s y"
    using merge_step_matched_facts(4) [OF _ assms] merge_step_unmatched_facts(4) [OF _ assms]
    by blast
  show "\<And>y k. k \<noteq> ''gridPos'' \<Longrightarrow> k \<noteq> ''id'' \<Longrightarrow> s' y k = s y k"
  proof -
    fix y k
    assume k: "k \<noteq> ''gridPos''" "k \<noteq> ''id''"
    show "s' y k = s y k"
    proof (cases "y = p2")
      case True
      with k show ?thesis
        using merge_step_matched_facts(5) [OF _ assms] merge_step_unmatched_facts(5) [OF _ assms]
        by blast
    next
      case False
      with y show ?thesis by simp
    qed
  qed
qed

lemma merge_loop_keeps:
  assumes "merge_loop J ps2 (maxY, res, s) = (maxY', res', s')"
  shows "key s' = key s \<and> (\<forall>y k. k \<noteq> ''gridPos'' \<longrightarrow> k \<noteq> ''id'' \<longrightarrow> s' y k = s y k) \<and>
         (\<forall>y. y \<notin> set ps2 \<longrightarrow> s' y = s y)"
  using assms
proof (induction ps2 arbitrary: maxY' res' s' rule: rev_induct)
  case Nil
  then show ?case by simp
next
  case (snoc p2 ps2)
  obtain m1 r1 s1 where l: "merge_loop J ps2 (maxY, res, s) = (m1, r1, s1)"
    by (metis prod_cases3)
  with snoc.prems have st: "merge_step J p2 (m1, r1, s1) = (maxY', res', s')"
    by (simp add: merge_loop_snoc)
  from snoc.IH [OF l] merge_step_keeps [OF st] show ?case by simp
qed


text \<open>Which panel a slot holds in the end.\<close>

lemma merge_loop_slots:
  assumes "merge_loop J inc (maxY, res, s) = (maxY', res', s')"
  shows "length res \<le> length res' \<and>
         (\<forall>i<length res. key s (res' ! i) = key s (res ! i) \<and>
            res' ! i = last (res ! i # with_key (key s) (key s (res ! i)) inc))"
  using assms
proof (induction inc arbitrary: maxY' res' s' rule: rev_induct)
  case Nil
  then show ?case by (simp add: with_key_def)
next
  case (snoc p2 xs)
  obtain m1 r1 s1 where l: "merge_loop J xs (maxY, res, s) = (m1, r1, s1)"
    by (metis prod_cases3)
  with snoc.prems have st: "merge_step J p2 (m1, r1, s1) = (maxY', res', s')"
    by (simp add: merge_loop_snoc)
  from merge_loop_keeps [OF l] have k1: "key s1 = key s" by simp
  note IH = snoc.IH [OF l]
  show ?case
  proof (cases "key s1 p2 \<in> key s1 ` set r1")
    case True
    note f = merge_step_matched_facts [OF True st]
    have len: "length res' = length r1" using f(2) by simp
    have "\<forall>i<length res. key s (res' ! i) = key s (res ! i) \<and>
            res' ! i = last (res ! i # with_key (key s) (key s (res ! i)) (xs @ [p2]))"
    proof (intro allI impI)
      fix i assume i: "i < length res"
      with IH have i1: "i < length r1" and ki: "key s (r1 ! i) = key s (res ! i)"
        and ri: "r1 ! i = last (res ! i # with_key (key s) (key s (res ! i)) xs)"
        by auto
      from f(2) i1 have "res' ! i = (if key s (r1 ! i) = key s p2 then p2 else r1 ! i)"
        by (simp add: k1)
      with ki ri show "key s (res' ! i) = key s (res ! i) \<and>
            res' ! i = last (res ! i # with_key (key s) (key s (res ! i)) (xs @ [p2]))"
        by (auto simp: with_key_def)
    qed
    moreover from IH len have "length res \<le> length res'" by simp
    ultimately show ?thesis by (rule conjI [rotated])
  next
    case False
    note f = merge_step_unmatched_facts [OF False st]
    have "\<forall>i<length res. key s (res' ! i) = key s (res ! i) \<and>
            res' ! i = last (res ! i # with_key (key s) (key s (res ! i)) (xs @ [p2]))"
    proof (intro allI impI)
      fix i assume i: "i < length res"
      with IH have i1: "i < length r1" and ki: "key s (r1 ! i) = key s (res ! i)"
        and ri: "r1 ! i = last (res ! i # with_key (key s) (key s (res ! i)) xs)"
        by auto
      from i1 have "r1 ! i \<in> set r1" by simp
      with False have "key s (r1 ! i) \<noteq> key s p2" by (metis image_eqI k1)
      with ki have ne: "key s p2 \<noteq> key s (res ! i)" by simp
      from f(2) i1 have "res' ! i = r1 ! i" by (simp add: nth_append)
      with ki ri ne show "key s (res' ! i) = key s (res ! i) \<and>
            res' ! i = last (res ! i # with_key (key s) (key s (res ! i)) (xs @ [p2]))"
        by (simp add: with_key_def)
    qed
    moreover from IH f(2) have "length res \<le> length res'" by simp
    ultimately show ?thesis by (rule conjI [rotated])
  qed
qed

text \<open>How many panels are appended, and where \<open>maxY\<close> stands then.\<close>

lemma merge_loop_count:
  assumes "merge_loop J inc (maxY, res, s) = (maxY', res', s')"
  shows "key s ` set res' = key s ` set res \<union> key s ` set inc \<and>
         length res' = length res + card (key s ` set inc - key s ` set res) \<and>
         maxY' = maxY + 2 * of_nat (card (key s ` set inc - key s ` set res))"
  using assms
proof (induction inc arbitrary: maxY' res' s' rule: rev_induct)
  case Nil
  then show ?case by simp
next
  case (snoc p2 xs)
  obtain m1 r1 s1 where l: "merge_loop J xs (maxY, res, s) = (m1, r1, s1)"
    by (metis prod_cases3)
  with snoc.prems have st: "merge_step J p2 (m1, r1, s1) = (maxY', res', s')"
    by (simp add: merge_loop_snoc)
  from merge_loop_keeps [OF l] have k1: "key s1 = key s" by simp
  note IH = snoc.IH [OF l]
  let ?N = "key s ` set xs - key s ` set res"
  show ?case
  proof (cases "key s1 p2 \<in> key s1 ` set r1")
    case True
    note f = merge_step_matched_facts [OF True st]
    from f(2) have "map (key s) res' = map (key s) r1" by (simp add: k1)
    then have ks: "key s ` set res' = key s ` set r1" by (metis list.set_map)
    from True IH have "key s p2 \<in> key s ` set res \<union> key s ` set xs" by (simp add: k1)
    then have "key s ` set (xs @ [p2]) - key s ` set res = ?N" by auto
    moreover have "key s ` set res \<union> key s ` set (xs @ [p2]) = key s ` set res \<union> key s ` set xs"
      using \<open>key s p2 \<in> key s ` set res \<union> key s ` set xs\<close> by auto
    ultimately show ?thesis using IH f(1,2) ks by simp
  next
    case False
    note f = merge_step_unmatched_facts [OF False st]
    from False IH have nin: "key s p2 \<notin> key s ` set res \<union> key s ` set xs" by (simp add: k1)
    then have "key s ` set (xs @ [p2]) - key s ` set res = insert (key s p2) ?N"
      by (simp add: insert_Diff_if)
    moreover have "key s p2 \<notin> ?N" using nin by auto
    moreover have "finite ?N" by simp
    ultimately have c: "card (key s ` set (xs @ [p2]) - key s ` set res) = Suc (card ?N)"
      by simp
    show ?thesis unfolding c using IH f(1,2) by (auto simp: algebra_simps)
  qed
qed

text \<open>A slot whose key no other slot has keeps its rectangle and id.\<close>

lemma merge_loop_single:
  assumes "merge_loop J inc (maxY, res, s) = (maxY', res', s')"
    and "with_key (key s) k res = [x]"
  shows "\<exists>x'. with_key (key s) k res' = [x'] \<and> layout_id s' x' = layout_id s x"
  using assms(1)
proof (induction inc arbitrary: maxY' res' s' rule: rev_induct)
  case Nil
  with assms(2) show ?case by simp
next
  case (snoc p2 xs)
  obtain m1 r1 s1 where l: "merge_loop J xs (maxY, res, s) = (m1, r1, s1)"
    by (metis prod_cases3)
  with snoc.prems have st: "merge_step J p2 (m1, r1, s1) = (maxY', res', s')"
    by (simp add: merge_loop_snoc)
  from merge_loop_keeps [OF l] have k1: "key s1 = key s" by simp
  from snoc.IH [OF l] obtain x1 where w1: "with_key (key s) k r1 = [x1]"
    and l1: "layout_id s1 x1 = layout_id s x" by blast
  from w1 have "x1 \<in> set (with_key (key s) k r1)" by simp
  then have x1: "x1 \<in> set r1" "key s x1 = k" by (simp_all add: with_key_set)
  show ?case
  proof (cases "key s p2 = k")
    case True
    with x1 have m: "key s1 p2 \<in> key s1 ` set r1" by (auto simp: k1)
    note f = merge_step_matched_facts [OF m st]
    from f(2) have "res' = map (\<lambda>r. if key s r = key s p2 then p2 else r) r1"
      by (simp add: k1)
    then have "with_key (key s) k res' =
        (if key s p2 = k then replicate (length (with_key (key s) k r1)) p2
         else with_key (key s) k r1)"
      by (simp only: with_key_replace)
    with True w1 have "with_key (key s) k res' = [p2]" by simp
    moreover have "layout_id s' p2 = layout_id s1 x1"
      using f(6) True w1 by (cases "x1 = p2") (simp_all add: k1)
    ultimately show ?thesis using l1 by simp
  next
    case False
    with x1 have ne: "x1 \<noteq> p2" by auto
    have "s' x1 = s1 x1" using merge_step_keeps(3) [OF st ne] .
    then have l': "layout_id s' x1 = layout_id s1 x1" by (rule layout_id_cong)
    have "with_key (key s) k res' = [x1]"
    proof (cases "key s1 p2 \<in> key s1 ` set r1")
      case True
      from merge_step_matched_facts(2) [OF True st]
      have "res' = map (\<lambda>r. if key s r = key s p2 then p2 else r) r1"
        by (simp add: k1)
      then have "with_key (key s) k res' =
          (if key s p2 = k then replicate (length (with_key (key s) k r1)) p2
           else with_key (key s) k r1)"
        by (simp only: with_key_replace)
      with False w1 show ?thesis by simp
    next
      case False': False
      from merge_step_unmatched_facts(2) [OF False' st] False w1 show ?thesis
        by (simp add: with_key_append) (simp add: with_key_def)
    qed
    with l' l1 show ?thesis by simp
  qed
qed


text \<open>The first loop computes the largest bottom edge, and at least 0.\<close>

lemma copy_base_max:
  "copy_base J s ps maxY res = Inr (m, res') \<Longrightarrow>
   sint m = Max (insert (sint maxY) ((\<lambda>a. sint (bottom_edge J (s a))) ` set ps))"
proof (induction ps arbitrary: maxY res)
  case Nil
  then show ?case by simp
next
  case (Cons a ps)
  then obtain gp where gp: "getGridPos J (s a) = Inr gp"
    by (cases "getGridPos J (s a)") auto
  let ?b = "Y gp + H gp"
  let ?m1 = "if maxY <s ?b then ?b else maxY"
  let ?S = "(\<lambda>a. sint (bottom_edge J (s a))) ` set ps"
  from Cons.prems gp have "copy_base J s ps ?m1 (res @ [a]) = Inr (m, res')" by simp
  from Cons.IH [OF this] have "sint m = Max (insert (sint ?m1) ?S)" .
  moreover have "sint ?m1 = max (sint maxY) (sint ?b)"
    by (simp add: word_sless_alt max_def)
  moreover have "bottom_edge J (s a) = ?b" by (simp add: bottom_edge_def gp)
  moreover have "Max (insert (max (sint maxY) (sint ?b)) ?S) =
                 Max (insert (sint maxY) (insert (sint ?b) ?S))"
    by (cases "?S = {}") (simp_all add: max.assoc)
  ultimately show ?case by simp
qed

lemma last_filter_keep: "xs \<noteq> [] \<Longrightarrow> P (last xs) \<Longrightarrow> last (filter P xs) = last xs"
  by (cases xs rule: rev_cases) simp_all

text \<open>
  Several slots with one key. Until an incoming panel has that key, the slots and
  the panels with that key are as they were. From then on all these slots hold one
  panel; its rectangle and id are those of the last of the slots, unless the first
  incoming panel with the key is the very map that the last slot held while
  another of the slots held a different one.
\<close>

lemma merge_loop_multi:
  assumes "merge_loop J inc (maxY, base, s) = (maxY', res', s')"
    and "with_key (key s) k base \<noteq> []"
  shows "if with_key (key s) k inc = []
         then with_key (key s) k res' = with_key (key s) k base \<and>
              (\<forall>y. key s y = k \<longrightarrow> s' y = s y)
         else hd (with_key (key s) k inc) \<noteq> last (with_key (key s) k base) \<or>
              (\<forall>b\<in>set (with_key (key s) k base). b = hd (with_key (key s) k inc)) \<longrightarrow>
              (\<exists>x. with_key (key s) k res' = replicate (length (with_key (key s) k base)) x \<and>
                   layout_id s' x = layout_id s (last (with_key (key s) k base)))"
  using assms(1)
proof (induction inc arbitrary: maxY' res' s' rule: rev_induct)
  case Nil
  then show ?case by (simp add: with_key_def)
next
  case (snoc p2 xs)
  let ?B = "with_key (key s) k base"
  let ?Q = "with_key (key s) k xs"
  let ?L = "layout_id s (last ?B)"
  obtain m1 r1 s1 where l: "merge_loop J xs (maxY, base, s) = (m1, r1, s1)"
    by (metis prod_cases3)
  with snoc.prems have st: "merge_step J p2 (m1, r1, s1) = (maxY', res', s')"
    by (simp add: merge_loop_snoc)
  from merge_loop_keeps [OF l] have k1: "key s1 = key s" by simp
  note IH = snoc.IH [OF l]
  have inv1: "with_key (key s) k r1 = ?B" "\<And>y. key s y = k \<Longrightarrow> s1 y = s y" if "?Q = []"
    using IH that by simp_all
  have inv2: "\<exists>x. with_key (key s) k r1 = replicate (length ?B) x \<and> layout_id s1 x = ?L"
    if "?Q \<noteq> []" "hd ?Q \<noteq> last ?B \<or> (\<forall>b\<in>set ?B. b = hd ?Q)"
    using IH that by simp
  have pos: "0 < length ?B" using assms(2) by simp
  have lastB: "last ?B \<in> set ?B" using assms(2) by simp
  show ?case
  proof (cases "key s p2 = k")
    case False
    then have Q': "with_key (key s) k (xs @ [p2]) = ?Q" by (simp add: with_key_def)
    have w: "with_key (key s) k res' = with_key (key s) k r1"
    proof (cases "key s1 p2 \<in> key s1 ` set r1")
      case True
      from merge_step_matched_facts(2) [OF True st]
      have "res' = map (\<lambda>r. if key s r = key s p2 then p2 else r) r1"
        by (simp add: k1)
      then have "with_key (key s) k res' =
          (if key s p2 = k then replicate (length (with_key (key s) k r1)) p2
           else with_key (key s) k r1)"
        by (simp only: with_key_replace)
      with False show ?thesis by simp
    next
      case False': False
      from merge_step_unmatched_facts(2) [OF False' st] False show ?thesis
        by (simp add: with_key_append) (simp add: with_key_def)
    qed
    have keep: "s' y = s1 y" if "key s y = k" for y
    proof -
      from that False have "y \<noteq> p2" by auto
      then show ?thesis by (rule merge_step_keeps(3) [OF st])
    qed
    show ?thesis
    proof (cases "?Q = []")
      case True
      with inv1 w keep show ?thesis unfolding Q' by simp
    next
      case False
      have "\<exists>x. with_key (key s) k res' = replicate (length ?B) x \<and> layout_id s' x = ?L"
        if c: "hd ?Q \<noteq> last ?B \<or> (\<forall>b\<in>set ?B. b = hd ?Q)"
      proof -
        from inv2 [OF False c] obtain x where x: "with_key (key s) k r1 = replicate (length ?B) x"
          "layout_id s1 x = ?L" by blast
        from x(1) pos have "x \<in> set (with_key (key s) k r1)" by simp
        then have "key s x = k" by (simp add: with_key_set)
        then have "s' x = s1 x" by (rule keep)
        then have "layout_id s' x = layout_id s1 x" by (rule layout_id_cong)
        with x w show ?thesis by auto
      qed
      with False show ?thesis unfolding Q' by simp
    qed
  next
    case True
    then have Q': "with_key (key s) k (xs @ [p2]) = ?Q @ [p2]" by (simp add: with_key_def)
    have ne1: "with_key (key s) k r1 \<noteq> [] \<Longrightarrow> key s1 p2 \<in> key s1 ` set r1"
    proof -
      assume "with_key (key s) k r1 \<noteq> []"
      then obtain y where "y \<in> set (with_key (key s) k r1)"
        by (cases "with_key (key s) k r1") auto
      then have "y \<in> set r1" "key s y = key s p2" using True by (simp_all add: with_key_set)
      then show ?thesis by (metis image_eqI k1)
    qed
    have goal: "\<exists>x. with_key (key s) k res' = replicate (length ?B) x \<and> layout_id s' x = ?L"
      if c: "hd (?Q @ [p2]) \<noteq> last ?B \<or> (\<forall>b\<in>set ?B. b = hd (?Q @ [p2]))"
    proof (cases "?Q = []")
      case True
      note Qe = this
      from inv1 [OF Qe] have w1: "with_key (key s) k r1 = ?B"
        and un: "\<And>y. key s y = k \<Longrightarrow> s1 y = s y" by simp_all
      from w1 assms(2) have m: "key s1 p2 \<in> key s1 ` set r1" by (intro ne1) simp
      note f = merge_step_matched_facts [OF m st]
      from f(2) have "res' = map (\<lambda>r. if key s r = key s p2 then p2 else r) r1"
        by (simp add: k1)
      then have "with_key (key s) k res' =
          (if key s p2 = k then replicate (length (with_key (key s) k r1)) p2
           else with_key (key s) k r1)"
        by (simp only: with_key_replace)
      with \<open>key s p2 = k\<close> w1 have w: "with_key (key s) k res' = replicate (length ?B) p2" by simp
      from f(6) w1 \<open>key s p2 = k\<close>
      have lay: "layout_id s' p2 =
          (if filter (\<lambda>r. r \<noteq> p2) ?B = [] then layout_id s1 p2
           else layout_id s1 (last (filter (\<lambda>r. r \<noteq> p2) ?B)))"
        by (simp add: k1)
      from c Qe have c': "p2 \<noteq> last ?B \<or> (\<forall>b\<in>set ?B. b = p2)" by simp
      have "layout_id s' p2 = ?L"
      proof (cases "p2 = last ?B")
        case False
        then have "last (filter (\<lambda>r. r \<noteq> p2) ?B) = last ?B"
          using assms(2) by (intro last_filter_keep) auto
        moreover from False lastB have "filter (\<lambda>r. r \<noteq> p2) ?B \<noteq> []"
          by (auto simp: filter_empty_conv)
        moreover have "key s (last ?B) = k" using lastB by (simp add: with_key_set)
        then have "s1 (last ?B) = s (last ?B)" by (rule un)
        then have "layout_id s1 (last ?B) = ?L" by (rule layout_id_cong)
        ultimately show ?thesis using lay by simp
      next
        case True
        with c' have "\<forall>b\<in>set ?B. b = p2" by simp
        then have "filter (\<lambda>r. r \<noteq> p2) ?B = []" by (auto simp: filter_empty_conv)
        with lay have "layout_id s' p2 = layout_id s1 p2" by simp
        moreover from \<open>key s p2 = k\<close> have "s1 p2 = s p2" by (rule un)
        then have "layout_id s1 p2 = layout_id s p2" by (rule layout_id_cong)
        ultimately show ?thesis using True by simp
      qed
      with w show ?thesis by blast
    next
      case False
      with c have "hd ?Q \<noteq> last ?B \<or> (\<forall>b\<in>set ?B. b = hd ?Q)" by simp
      from inv2 [OF False this] obtain x where x: "with_key (key s) k r1 = replicate (length ?B) x"
        "layout_id s1 x = ?L" by blast
      from x(1) pos have m: "key s1 p2 \<in> key s1 ` set r1" by (intro ne1) auto
      note f = merge_step_matched_facts [OF m st]
      from f(2) have "res' = map (\<lambda>r. if key s r = key s p2 then p2 else r) r1"
        by (simp add: k1)
      then have "with_key (key s) k res' =
          (if key s p2 = k then replicate (length (with_key (key s) k r1)) p2
           else with_key (key s) k r1)"
        by (simp only: with_key_replace)
      with \<open>key s p2 = k\<close> x(1) have w: "with_key (key s) k res' = replicate (length ?B) p2"
        by simp
      have "layout_id s' p2 = ?L"
      proof (cases "x = p2")
        case True
        with f(6) x \<open>key s p2 = k\<close> show ?thesis by (simp add: k1)
      next
        case False
        then have "filter (\<lambda>r. r \<noteq> p2) (replicate (length ?B) x) = replicate (length ?B) x"
          by simp
        with f(6) x \<open>key s p2 = k\<close> pos show ?thesis by (simp add: k1)
      qed
      with w show ?thesis by blast
    qed
    have "?Q @ [p2] \<noteq> []" by simp
    with goal show ?thesis unfolding Q' by (simp only: if_False) blast
  qed
qed

lemma filter_unique_nth:
  assumes "i < length xs" and "P (xs ! i)" and "\<forall>j<length xs. j \<noteq> i \<longrightarrow> \<not> P (xs ! j)"
  shows "filter P xs = [xs ! i]"
proof -
  have a: "\<forall>x\<in>set (take i xs). \<not> P x"
  proof
    fix x assume "x \<in> set (take i xs)"
    then obtain j where "j < length (take i xs)" "x = take i xs ! j"
      by (auto simp: in_set_conv_nth)
    with assms(1,3) show "\<not> P x" by simp
  qed
  have b: "\<forall>x\<in>set (drop (Suc i) xs). \<not> P x"
  proof
    fix x assume "x \<in> set (drop (Suc i) xs)"
    then obtain j where "j < length (drop (Suc i) xs)" "x = drop (Suc i) xs ! j"
      by (auto simp: in_set_conv_nth)
    with assms(1,3) show "\<not> P x" by simp
  qed
  have "xs = take i xs @ xs ! i # drop (Suc i) xs"
    using assms(1) by (rule id_take_nth_drop)
  then have "filter P xs = filter P (take i xs) @ filter P (xs ! i # drop (Suc i) xs)"
    by (metis filter_append)
  with a b assms(2) show ?thesis by (simp add: filter_empty_conv)
qed

lemma MergePanels_Inr:
  assumes "MergePanels J base inc s = Inr (res, s')"
  obtains M maxY' where "copy_base J s base 0 [] = Inr (M, base)"
    and "merge_loop J inc (M, base, s) = (maxY', res, s')"
proof -
  from assms obtain M r where cb: "copy_base J s base 0 [] = Inr (M, r)"
    by (auto simp: MergePanels_def split: sum.splits)
  from copy_base_res [OF cb] have r: "r = base" by simp
  from assms cb r have "snd (merge_loop J inc (M, base, s)) = (res, s')"
    by (simp add: MergePanels_def)
  then obtain maxY' where "merge_loop J inc (M, base, s) = (maxY', res, s')"
    by (cases "merge_loop J inc (M, base, s)") auto
  with cb r that show ?thesis by simp
qed

lemma MergePanels_total:
  assumes "\<forall>a\<in>set base. getGridPos J (s a) \<noteq> Inl Panic"
  shows "\<exists>res s'. MergePanels J base inc s = Inr (res, s')"
proof -
  from copy_base_total [OF assms, of 0 "[]"]
  obtain m where "copy_base J s base 0 [] = Inr (m, base)" by auto
  then show ?thesis
    by (cases "merge_loop J inc (m, base, s)") (auto simp add: MergePanels_def)
qed

lemma with_key_Equals: "with_key (key s) (key s q) xs = filter (\<lambda>b. Equals (s b) (s q)) xs"
  by (simp add: with_key_def Equals_key)

lemma with_key_Equals': "with_key (key s) (key s q) xs = filter (\<lambda>b. Equals (s q) (s b)) xs"
  by (simp add: with_key_def Equals_key eq_commute)

lemma in_with_key_replicate:
  assumes "with_key K k res = replicate n x" and "i < length res" and "K (res ! i) = k"
  shows "res ! i = x"
proof -
  from assms(2,3) have "res ! i \<in> set (with_key K k res)" by (simp add: with_key_set)
  with assms(1) show ?thesis by (simp split: if_splits)
qed

text \<open>
  C7. Merging a sequence with itself, \<^verbatim>\<open>MergePanels(ps, ps)\<close>, returns a sequence of
  exactly \<open>len(ps)\<close> panels: every panel finds its own slot, so nothing is appended.
  The call returns whenever the rectangles of \<open>ps\<close> decode.
\<close>

theorem MergePanels_self_length:
  assumes "\<forall>a\<in>set ps. getGridPos J (s a) \<noteq> Inl Panic"
  shows "\<exists>res s'. MergePanels J ps ps s = Inr (res, s') \<and> length res = length ps"
proof -
  from copy_base_total [OF assms, of 0 "[]"]
  obtain m where cb: "copy_base J s ps 0 [] = Inr (m, ps)" by auto
  have "length (fst (snd (merge_loop J ps (m, ps, s)))) = length ps"
    by (rule merge_loop_all_matched) simp
  with cb show ?thesis
    by (cases "merge_loop J ps (m, ps, s)") (auto simp add: MergePanels_def)
qed

theorem MergePanels_self_length_witness:
  "\<exists>res s'. MergePanels json [0, 1, 2] [0, 1, 2] (store_of merge_panels) = Inr (res, s') \<and>
     length res = length [0, 1, 2 :: addr]"
proof -
  have h: "\<forall>a\<in>set [0, 1, 2]. getGridPos json (store_of merge_panels a) \<noteq> Inl Panic"
    by code_simp
  from MergePanels_self_length [OF h] show ?thesis .
qed


text \<open>
  C9, as stated, fails when the incoming panel is itself the map in the last
  matching slot: merging the base panels 0 and 1, both titled CPU, with the
  sequence that holds panel 1 alone leaves both slots with the rectangle and id of
  the first slot, not of the last.
\<close>

theorem MergePanels_multi_match_counterexample:
  \<open>case MergePanels json [0, 1] [1] (store_of merge_panels) of
     Inl e \<Rightarrow> False
   | Inr (res, s') \<Rightarrow>
       Equals (store_of merge_panels 0) (store_of merge_panels 1) \<and>
       res = [1, 1] \<and>
       GridPosRaw (s' 1) = GridPosRaw (store_of merge_panels 0) \<and>
       IDRaw (s' 1) = IDRaw (store_of merge_panels 0) \<and>
       GridPosRaw (s' 1) \<noteq> GridPosRaw (store_of merge_panels 1) \<and>
       IDRaw (s' 1) \<noteq> IDRaw (store_of merge_panels 1)\<close>
  by code_simp

text \<open>
  C9, amended. When an incoming panel \<open>q\<close> matches slots of the result, and the
  first incoming panel with \<open>q\<close>'s title and type is not the very map held by the
  last matching slot (or every matching slot holds that map), then after the merge
  all those slots hold one and the same panel, and the \<open>gridPos\<close> and \<open>id\<close> stored
  there are the original ones of the last matching slot, not each slot's own. The
  condition holds when the incoming panels are maps of their own, and when a
  sequence of distinct maps is merged with itself.
\<close>

theorem MergePanels_multi_match:
  assumes "MergePanels J base inc s = Inr (res, s')"
    and "q \<in> set inc"
    and "filter (\<lambda>b. Equals (s b) (s q)) base \<noteq> []"
    and "hd (filter (\<lambda>p. Equals (s p) (s q)) inc) \<noteq> last (filter (\<lambda>b. Equals (s b) (s q)) base) \<or>
         (\<forall>b\<in>set (filter (\<lambda>b. Equals (s b) (s q)) base).
            b = hd (filter (\<lambda>p. Equals (s p) (s q)) inc))"
  shows "\<exists>x. (\<forall>i<length base. Equals (s (base ! i)) (s q) \<longrightarrow> res ! i = x) \<and>
           GridPosRaw (s' x) = GridPosRaw (s (last (filter (\<lambda>b. Equals (s b) (s q)) base))) \<and>
           IDRaw (s' x) = IDRaw (s (last (filter (\<lambda>b. Equals (s b) (s q)) base)))"
proof -
  from assms(1) obtain M maxY' where l: "merge_loop J inc (M, base, s) = (maxY', res, s')"
    by (rule MergePanels_Inr)
  let ?k = "key s q"
  let ?B = "filter (\<lambda>b. Equals (s b) (s q)) base"
  let ?Q = "filter (\<lambda>p. Equals (s p) (s q)) inc"
  have B: "with_key (key s) ?k base = ?B" and Q: "with_key (key s) ?k inc = ?Q"
    by (rule with_key_Equals)+
  from assms(3) B have ne: "with_key (key s) ?k base \<noteq> []" by simp
  from assms(2) have "q \<in> set (with_key (key s) ?k inc)" by (simp add: with_key_set)
  then have neQ: "with_key (key s) ?k inc \<noteq> []" by auto
  from merge_loop_multi [OF l ne] neQ assms(4) obtain x
    where w: "with_key (key s) ?k res = replicate (length (with_key (key s) ?k base)) x"
      and lay: "layout_id s' x = layout_id s (last (with_key (key s) ?k base))"
    unfolding B Q by auto
  note sl = merge_loop_slots [OF l]
  have "\<forall>i<length base. Equals (s (base ! i)) (s q) \<longrightarrow> res ! i = x"
  proof (intro allI impI)
    fix i assume i: "i < length base" and e: "Equals (s (base ! i)) (s q)"
    from sl i have "i < length res" "key s (res ! i) = key s (base ! i)" by auto
    with e have "i < length res" "key s (res ! i) = ?k" by (simp_all add: Equals_key)
    with w show "res ! i = x" by (rule in_with_key_replicate)
  qed
  with lay B show ?thesis by (auto simp: layout_id_def)
qed

theorem MergePanels_multi_match_witness:
  \<open>\<exists>res s'. MergePanels json [0, 1] [0, 1] (store_of merge_panels) = Inr (res, s') \<and>
     res ! 0 = res ! 1 \<and>
     GridPosRaw (s' (res ! 0)) = GridPosRaw (store_of merge_panels 1) \<and>
     IDRaw (s' (res ! 0)) = IDRaw (store_of merge_panels 1) \<and>
     GridPosRaw (s' (res ! 0)) \<noteq> GridPosRaw (store_of merge_panels 0)\<close>
proof -
  let ?S = "store_of merge_panels"
  have "\<forall>a\<in>set [0, 1]. getGridPos json (?S a) \<noteq> Inl Panic" by code_simp
  from MergePanels_total [OF this] obtain res s'
    where m: "MergePanels json [0, 1] [0, 1] ?S = Inr (res, s')" by blast
  have h2: "(1 :: addr) \<in> set [0, 1]" by simp
  have f: "filter (\<lambda>b. Equals (?S b) (?S 1)) [0, 1] = [0, 1]" by code_simp
  then have h3: "filter (\<lambda>b. Equals (?S b) (?S 1)) [0, 1] \<noteq> []" by simp
  have h4: "hd (filter (\<lambda>p. Equals (?S p) (?S 1)) [0, 1]) \<noteq>
              last (filter (\<lambda>b. Equals (?S b) (?S 1)) [0, 1]) \<or>
            (\<forall>b\<in>set (filter (\<lambda>b. Equals (?S b) (?S 1)) [0, 1]).
               b = hd (filter (\<lambda>p. Equals (?S p) (?S 1)) [0, 1]))"
    unfolding f by simp
  from MergePanels_multi_match [OF m h2 h3 h4] obtain x
    where a: "\<forall>i<length [0, 1 :: addr]. Equals (?S ([0, 1] ! i)) (?S 1) \<longrightarrow> res ! i = x"
      and g: "GridPosRaw (s' x) = GridPosRaw (?S (last (filter (\<lambda>b. Equals (?S b) (?S 1)) [0, 1])))"
      and i: "IDRaw (s' x) = IDRaw (?S (last (filter (\<lambda>b. Equals (?S b) (?S 1)) [0, 1])))"
    by blast
  have e0: "Equals (?S 0) (?S 1)" and e1: "Equals (?S 1) (?S 1)" by code_simp+
  from a [rule_format, of 0] e0 have r0: "res ! 0 = x" by simp
  from a [rule_format, of 1] e1 have r1: "res ! 1 = x" by simp
  have ne: "GridPosRaw (?S 1) \<noteq> GridPosRaw (?S 0)" by code_simp
  from m r0 r1 g i ne show ?thesis unfolding f by simp
qed

text \<open>
  C1, as stated, fails: with two base panels titled CPU and two incoming panels
  titled CPU, the first slot ends with the fields of the second incoming panel, not
  of the first, and with the rectangle and id of the second base panel, not its own.
\<close>

theorem MergePanels_match_overwrite_counterexample:
  \<open>case MergePanels json [0, 1] [3, 4] (store_of merge_panels) of
     Inl e \<Rightarrow> False
   | Inr (res, s') \<Rightarrow>
       Equals (store_of merge_panels 0) (store_of merge_panels 3) \<and>
       s' (res ! 0) ''extra'' \<noteq> store_of merge_panels 3 ''extra'' \<and>
       Equals (store_of merge_panels 0) (store_of merge_panels 4) \<and>
       GridPosRaw (s' (res ! 0)) \<noteq> GridPosRaw (store_of merge_panels 0) \<and>
       IDRaw (s' (res ! 0)) \<noteq> IDRaw (store_of merge_panels 0)\<close>
  by code_simp

text \<open>
  C1, amended. If some incoming panel matches the base panel \<open>p\<close> of slot \<open>i\<close>, the
  slot ends up holding the last incoming panel that matches \<open>p\<close>, with every field
  of that panel except \<open>id\<close> and \<open>gridPos\<close>; and when no other base panel has \<open>p\<close>'s
  title and type, its \<open>id\<close> and \<open>gridPos\<close> are the original ones of \<open>p\<close>.
\<close>

theorem MergePanels_match_overwrite:
  assumes "MergePanels J base inc s = Inr (res, s')"
    and "i < length base"
    and "filter (\<lambda>q. Equals (s (base ! i)) (s q)) inc \<noteq> []"
  shows "res ! i = last (filter (\<lambda>q. Equals (s (base ! i)) (s q)) inc) \<and>
         (\<forall>k. k \<noteq> ''id'' \<longrightarrow> k \<noteq> ''gridPos'' \<longrightarrow> s' (res ! i) k = s (res ! i) k) \<and>
         ((\<forall>j<length base. j \<noteq> i \<longrightarrow> \<not> Equals (s (base ! j)) (s (base ! i))) \<longrightarrow>
            GridPosRaw (s' (res ! i)) = GridPosRaw (s (base ! i)) \<and>
            IDRaw (s' (res ! i)) = IDRaw (s (base ! i)))"
proof -
  from assms(1) obtain M maxY' where l: "merge_loop J inc (M, base, s) = (maxY', res, s')"
    by (rule MergePanels_Inr)
  let ?k = "key s (base ! i)"
  note sl = merge_loop_slots [OF l]
  from sl assms(2) have ir: "i < length res" and kr: "key s (res ! i) = ?k"
    and ri: "res ! i = last (base ! i # with_key (key s) ?k inc)" by auto
  from ri assms(3) have A: "res ! i = last (filter (\<lambda>q. Equals (s (base ! i)) (s q)) inc)"
    by (simp add: with_key_Equals')
  from merge_loop_keeps [OF l]
  have Bf: "\<forall>k. k \<noteq> ''id'' \<longrightarrow> k \<noteq> ''gridPos'' \<longrightarrow> s' (res ! i) k = s (res ! i) k"
    by simp
  have C: "GridPosRaw (s' (res ! i)) = GridPosRaw (s (base ! i)) \<and>
           IDRaw (s' (res ! i)) = IDRaw (s (base ! i))"
    if u: "\<forall>j<length base. j \<noteq> i \<longrightarrow> \<not> Equals (s (base ! j)) (s (base ! i))"
  proof -
    have "filter (\<lambda>b. key s b = ?k) base = [base ! i]"
      using assms(2) u by (intro filter_unique_nth) (simp_all add: Equals_key)
    then have "with_key (key s) ?k base = [base ! i]" by (simp add: with_key_def)
    from merge_loop_single [OF l this] obtain x' where w: "with_key (key s) ?k res = [x']"
      and lay: "layout_id s' x' = layout_id s (base ! i)" by blast
    from w have "with_key (key s) ?k res = replicate 1 x'" by simp
    from this ir kr have "res ! i = x'" by (rule in_with_key_replicate)
    with lay show ?thesis by (simp add: layout_id_def)
  qed
  from A Bf C show ?thesis by blast
qed

theorem MergePanels_match_overwrite_witness:
  \<open>\<exists>res s'. MergePanels json [0, 2] [3, 4] (store_of merge_panels) = Inr (res, s') \<and>
     res ! 0 = 4 \<and>
     s' 4 ''title'' = store_of merge_panels 4 ''title'' \<and>
     s' 4 ''extra'' = store_of merge_panels 4 ''extra'' \<and>
     GridPosRaw (s' 4) = GridPosRaw (store_of merge_panels 0) \<and>
     IDRaw (s' 4) = IDRaw (store_of merge_panels 0)\<close>
proof -
  let ?S = "store_of merge_panels"
  have "\<forall>a\<in>set [0, 2]. getGridPos json (?S a) \<noteq> Inl Panic" by code_simp
  from MergePanels_total [OF this] obtain res s'
    where m: "MergePanels json [0, 2] [3, 4] ?S = Inr (res, s')" by blast
  have h2: "0 < length [0, 2 :: addr]" by simp
  have f: "filter (\<lambda>q. Equals (?S ([0, 2] ! 0)) (?S q)) [3, 4] = [3, 4]" by code_simp
  then have h3: "filter (\<lambda>q. Equals (?S ([0, 2] ! 0)) (?S q)) [3, 4] \<noteq> []" by simp
  have u: "\<forall>j<length [0, 2 :: addr]. j \<noteq> 0 \<longrightarrow> \<not> Equals (?S ([0, 2] ! j)) (?S ([0, 2] ! 0))"
  proof (intro allI impI)
    fix j :: nat assume "j < length [0, 2 :: addr]" "j \<noteq> 0"
    then have "j = 1" by simp
    moreover have "\<not> Equals (?S 2) (?S 0)" by code_simp
    ultimately show "\<not> Equals (?S ([0, 2] ! j)) (?S ([0, 2] ! 0))" by simp
  qed
  note T = MergePanels_match_overwrite [OF m h2 h3, unfolded f]
  from T have A: "res ! 0 = last [3, 4 :: addr]" by (rule conjunct1)
  then have A': "res ! 0 = 4" by simp
  from T have B: "\<forall>k. k \<noteq> ''id'' \<longrightarrow> k \<noteq> ''gridPos'' \<longrightarrow> s' (res ! 0) k = ?S (res ! 0) k"
    by blast
  from T u have C: "GridPosRaw (s' (res ! 0)) = GridPosRaw (?S ([0, 2] ! 0)) \<and>
      IDRaw (s' (res ! 0)) = IDRaw (?S ([0, 2] ! 0))" by blast
  from B have "s' (res ! 0) ''title'' = ?S (res ! 0) ''title''"
    and "s' (res ! 0) ''extra'' = ?S (res ! 0) ''extra''" by simp_all
  with m A' C show ?thesis by simp
qed

text \<open>
  An incoming panel that matches no base panel and no earlier incoming panel is
  appended behind the base panels, with the default rectangle at the running
  \<open>maxY\<close>; the slot keeps that rectangle.
\<close>

lemma merge_appends_first_of_key:
  assumes "MergePanels J base (pre @ q # post) s = Inr (res, s')"
    and "\<forall>b\<in>set base \<union> set pre. \<not> Equals (s b) (s q)"
  shows "\<exists>M. sint M = Max (insert 0 ((\<lambda>b. sint (bottom_edge J (s b))) ` set base)) \<and>
           (let k = card (key s ` set pre - key s ` set base); i = length base + k in
            i < length res \<and> res ! i = last (q # filter (\<lambda>p. Equals (s q) (s p)) post) \<and>
            GridPosRaw (s' (res ! i)) =
              Some (marshal_GridPos J \<lparr>H = 2, W = 6, X = 0, Y = M + 1 + 2 * of_nat k\<rparr>))"
proof -
  from assms(1) obtain M maxY' where cb: "copy_base J s base 0 [] = Inr (M, base)"
    and l: "merge_loop J (pre @ q # post) (M, base, s) = (maxY', res, s')"
    by (rule MergePanels_Inr)
  from copy_base_max [OF cb]
  have M: "sint M = Max (insert 0 ((\<lambda>b. sint (bottom_edge J (s b))) ` set base))" by simp
  let ?k = "card (key s ` set pre - key s ` set base)"
  obtain m1 r1 s1 where l1: "merge_loop J pre (M, base, s) = (m1, r1, s1)"
    by (metis prod_cases3)
  obtain m2 r2 s2 where st: "merge_step J q (m1, r1, s1) = (m2, r2, s2)"
    by (metis prod_cases3)
  from l l1 st have l2: "merge_loop J post (m2, r2, s2) = (maxY', res, s')"
    by (simp add: merge_loop_append)
  from merge_loop_keeps [OF l1] have k1: "key s1 = key s" by simp
  from merge_loop_count [OF l1] have ks: "key s ` set r1 = key s ` set base \<union> key s ` set pre"
    and len: "length r1 = length base + ?k" and m1: "m1 = M + 2 * of_nat ?k" by simp_all
  from assms(2) have "key s q \<notin> key s ` set base \<union> key s ` set pre"
    by (auto simp: Equals_key)
  with ks have nm: "key s1 q \<notin> key s1 ` set r1" by (simp add: k1)
  note f = merge_step_unmatched_facts [OF nm st]
  have k2: "key s2 = key s" using f(3) k1 by simp
  have g: "GridPosRaw (s2 q) = Some (marshal_GridPos J (default_GridPos m1))"
    using f(6) by (simp add: GridPosRaw_def index_def)
  have i2: "length r1 < length r2" and q2: "r2 ! length r1 = q" using f(2) by simp_all
  from merge_loop_slots [OF l2] i2 q2
  have ir: "length r1 < length res" and kr: "key s (res ! length r1) = key s q"
    and ri: "res ! length r1 = last (q # with_key (key s) (key s q) post)"
    by (auto simp: k2)
  from nm have "with_key (key s) (key s q) r1 = []"
    by (intro with_key_empty) (simp add: k1)
  then have "with_key (key s2) (key s q) r2 = [q]"
    using f(2) by (simp add: k2 with_key_append) (simp add: with_key_def)
  from merge_loop_single [OF l2 this] obtain x' where w: "with_key (key s) (key s q) res = [x']"
    and lay: "layout_id s' x' = layout_id s2 q" by (auto simp: k2)
  from w have "with_key (key s) (key s q) res = replicate 1 x'" by simp
  from this ir kr have "res ! length r1 = x'" by (rule in_with_key_replicate)
  with lay g have "GridPosRaw (s' (res ! length r1)) = Some (marshal_GridPos J (default_GridPos m1))"
    by (simp add: layout_id_def)
  moreover have "default_GridPos m1 = \<lparr>H = 2, W = 6, X = 0, Y = M + 1 + 2 * of_nat ?k\<rparr>"
    by (simp add: default_GridPos_def m1)
  ultimately show ?thesis
    using M ir ri len by (auto simp: Let_def with_key_Equals')
qed

text \<open>
  C2. Two incoming panels 3 and 4 with the same title and type, and an empty base:
  neither matches a panel of the base, so both are to be appended. The code appends
  panel 3, then finds it as a match for panel 4 and overwrites it: the output
  holds panel 4 alone, and panel 3 is lost.
\<close>

theorem MergePanels_unmatched_overwritten_evaluation:
  \<open>case MergePanels json [] [3, 4] (store_of merge_panels) of
     Inl e \<Rightarrow> False
   | Inr (res, s') \<Rightarrow>
       Equals (store_of merge_panels 3) (store_of merge_panels 4) \<and>
       res = [4] \<and> 3 \<notin> set res \<and>
       GridPosRaw (s' 4) = Some ''{"h":2,"w":6,"x":0,"y":1}''\<close>
  by code_simp

section \<open>The repacking pass\<close>

lemma sint_add_small:
  fixes a b :: goint
  assumes "- (2 ^ 62) \<le> sint a" "sint a < 2 ^ 62" "- (2 ^ 62) \<le> sint b" "sint b < 2 ^ 62"
  shows "sint (a + b) = sint a + sint b"
proof -
  have "sint (a + b) = signed_take_bit 63 (sint a + sint b)"
    by (simp add: sint_word_ariths)
  also have "\<dots> = sint a + sint b"
    using assms by (intro signed_take_bit_int_eq_self) simp_all
  finally show ?thesis .
qed

lemma sint_smax: "sint (if a <s b then b else a) = max (sint a) (sint b)"
  by (simp add: word_sless_alt max_def)

lemma new_row_iff:
  assumes "sint (currentRowWidth st) = n" "0 \<le> n" "n \<le> 24" "0 \<le> sint w" "sint w \<le> 24"
  shows "new_row st w \<longleftrightarrow> 24 < n + sint w"
proof -
  have "sint (currentRowWidth st + w) = sint (currentRowWidth st) + sint w"
    using assms by (intro sint_add_small) simp_all
  then show ?thesis
    using assms(1) by (simp add: new_row_def maxWidth_def word_sless_alt)
qed

lemma max_height_snoc: "max_height (row @ [p]) = max (max_height row) (sint (H p))"
proof -
  have "max_height (row @ [p]) = Max (insert (sint (H p)) (insert 0 ((\<lambda>r. sint (H r)) ` set row)))"
    by (simp add: max_height_def insert_commute)
  also have "\<dots> = max (sint (H p)) (max_height row)"
    unfolding max_height_def by (rule Max_insert) simp_all
  finally show ?thesis by (simp add: max.commute)
qed

lemma max_height_Nil [simp]: "max_height [] = 0"
  by (simp add: max_height_def)

lemma width_sum_snoc [simp]: "width_sum (row @ [p]) = width_sum row + sint (W p)"
  by (simp add: width_sum_def)

lemma width_sum_Nil [simp]: "width_sum [] = 0"
  by (simp add: width_sum_def)

text \<open>One placement keeps the invariant of the current row.\<close>

lemma place_row_inv:
  assumes "row_inv (st, row)" and "0 \<le> sint (W p)" and "sint (W p) \<le> 24"
    and "place st p = (p1, st1)"
  shows "row_inv (st1, (if new_row st (W p) then [] else row) @ [p1])"
    and "W p1 = W p" and "H p1 = H p"
    and "new_row st (W p) \<longleftrightarrow> 24 < width_sum row + sint (W p)"
    and "new_row st (W p) \<Longrightarrow>
           X p1 = 0 \<and> Y p1 = currentY st + currentRowMaxBottom st \<and>
           currentY st1 = currentY st + currentRowMaxBottom st"
    and "\<not> new_row st (W p) \<Longrightarrow>
           X p1 = currentRowWidth st \<and> Y p1 = currentY st \<and> currentY st1 = currentY st"
proof -
  from assms(1) have rw: "sint (currentRowWidth st) = width_sum row"
    and w0: "0 \<le> width_sum row" and w24: "width_sum row \<le> 24"
    and mh: "sint (currentRowMaxBottom st) = max_height row"
    and ys: "list_all (\<lambda>r. Y r = currentY st) row"
    by (simp_all add: row_inv_def)
  show iff: "new_row st (W p) \<longleftrightarrow> 24 < width_sum row + sint (W p)"
    using rw w0 w24 assms(2,3) by (rule new_row_iff)
  show "W p1 = W p" "H p1 = H p"
    using assms(4) by (auto simp: place_def Let_def)
  show n: "new_row st (W p) \<Longrightarrow>
           X p1 = 0 \<and> Y p1 = currentY st + currentRowMaxBottom st \<and>
           currentY st1 = currentY st + currentRowMaxBottom st"
    using assms(4) by (auto simp: place_def Let_def)
  show nn: "\<not> new_row st (W p) \<Longrightarrow>
           X p1 = currentRowWidth st \<and> Y p1 = currentY st \<and> currentY st1 = currentY st"
    using assms(4) by (auto simp: place_def Let_def)
  show "row_inv (st1, (if new_row st (W p) then [] else row) @ [p1])"
  proof (cases "new_row st (W p)")
    case True
    with assms(4) have st1: "st1 = \<lparr>currentY = currentY st + currentRowMaxBottom st,
        currentRowWidth = 0 + W p,
        currentRowMaxBottom = (if 0 <s H p then H p else 0)\<rparr>"
      and p1: "p1 = p\<lparr>X := 0, Y := currentY st + currentRowMaxBottom st\<rparr>"
      by (auto simp: place_def Let_def)
    have "sint (currentRowMaxBottom st1) = max 0 (sint (H p))"
      unfolding st1 using sint_smax [of 0 "H p"] by simp
    then have "sint (currentRowMaxBottom st1) = max_height [p1]"
      using max_height_snoc [of "[]" p1] by (simp add: p1)
    moreover have "width_sum [p1] = sint (W p)" by (simp add: width_sum_def p1)
    ultimately show ?thesis
      using True assms(2,3) by (simp add: row_inv_def st1 p1)
  next
    case False
    with assms(4) have st1: "st1 = \<lparr>currentY = currentY st,
        currentRowWidth = currentRowWidth st + W p,
        currentRowMaxBottom =
          (if currentRowMaxBottom st <s H p then H p else currentRowMaxBottom st)\<rparr>"
      and p1: "p1 = p\<lparr>X := currentRowWidth st, Y := currentY st\<rparr>"
      by (auto simp: place_def Let_def)
    from False iff have le: "width_sum row + sint (W p) \<le> 24" by simp
    have "sint (currentRowWidth st + W p) = sint (currentRowWidth st) + sint (W p)"
      using rw w0 w24 assms(2,3) by (intro sint_add_small) simp_all
    then have a: "sint (currentRowWidth st1) = width_sum (row @ [p1])"
      by (simp add: st1 p1 rw)
    have "sint (currentRowMaxBottom st1) = max (max_height row) (sint (H p))"
      unfolding st1 using sint_smax [of "currentRowMaxBottom st" "H p"] mh by simp
    then have b: "sint (currentRowMaxBottom st1) = max_height (row @ [p1])"
      by (simp add: max_height_snoc p1)
    from a b le w0 assms(2) ys False show ?thesis
      by (simp add: row_inv_def st1 p1)
  qed
qed


lemma shelf_snoc:
  "shelf x (ps @ [p]) =
     (case shelf x ps of (st, row) \<Rightarrow>
        (case place st p of (p1, st1) \<Rightarrow> (st1, (if new_row st (W p) then [] else row) @ [p1])))"
  by (induction x ps rule: shelf.induct) (auto split: prod.splits)

lemma row_inv_initial: "row_inv (initial_layout, [])"
  by (simp add: row_inv_def initial_layout_def)

lemma shelf_row_inv:
  assumes "\<forall>p\<in>set ps. 0 \<le> sint (W p) \<and> sint (W p) \<le> 24"
  shows "row_inv (shelf (initial_layout, []) ps)"
  using assms
proof (induction ps rule: rev_induct)
  case Nil
  then show ?case by (simp add: row_inv_initial)
next
  case (snoc p ps)
  obtain st row where sh: "shelf (initial_layout, []) ps = (st, row)" by (cases "shelf (initial_layout, []) ps")
  obtain p1 st1 where pl: "place st p = (p1, st1)" by (cases "place st p")
  from snoc have inv: "row_inv (st, row)" and w: "0 \<le> sint (W p)" "sint (W p) \<le> 24"
    by (simp_all add: sh)
  from place_row_inv(1) [OF inv w pl] show ?case
    by (simp add: shelf_snoc sh pl)
qed

lemma place_cong: "W g = W g' \<Longrightarrow> H g = H g' \<Longrightarrow> place st g = place st g'"
  by (cases g; cases g') (simp add: place_def Let_def)

lemma repack_append:
  "repack J (xs @ ys) st s =
     (case repack J xs st s of Inl e \<Rightarrow> Inl e | Inr (st1, s1) \<Rightarrow> repack J ys st1 s1)"
  by (induction xs arbitrary: st s) (auto split: sum.splits prod.splits)

lemma getGridPos_assign:
  assumes "\<forall>g. unmarshal_GridPos J (marshal_GridPos J g) = Some g"
  shows "getGridPos J (assign s a ''gridPos'' (Some (marshal_GridPos J g)) b) =
           (if b = a then Inr g else getGridPos J (s b))"
  using assms by (simp add: getGridPos_def assign_def bytes_of_def)

text \<open>The loop and the rectangles it places, with the sizes the panels came with.\<close>

lemma repack_shelf:
  assumes rt: "\<forall>g. unmarshal_GridPos J (marshal_GridPos J g) = Some g"
    and "\<forall>a\<in>set res. same_size J R s a"
  shows "\<exists>s'. repack J res st s = Inr (fst (shelf (st, row) (map R res)), s') \<and>
           (\<forall>b. same_size J R s b \<longrightarrow> same_size J R s' b)"
  using assms(2)
proof (induction res arbitrary: st row s)
  case Nil
  then show ?case by simp
next
  case (Cons a res)
  from Cons.prems obtain g where g: "getGridPos J (s a) = Inr g"
    and sz: "W g = W (R a)" "H g = H (R a)"
    by (auto simp: same_size_def split: sum.splits)
  obtain p1 st1 where pl: "place st (R a) = (p1, st1)" by (cases "place st (R a)")
  with place_cong [OF sz, of st] have pl': "place st g = (p1, st1)" by simp
  let ?s1 = "assign s a ''gridPos'' (Some (marshal_GridPos J p1))"
  have p1: "W p1 = W (R a)" "H p1 = H (R a)"
    using pl by (auto simp: place_def Let_def)
  have keep: "same_size J R ?s1 b" if "same_size J R s b" for b
    using that p1 by (simp add: same_size_def getGridPos_assign [OF rt])
  with Cons.prems have "\<forall>b\<in>set res. same_size J R ?s1 b" by simp
  from Cons.IH [OF this, of st1 "(if new_row st (W (R a)) then [] else row) @ [p1]"]
  obtain s' where r: "repack J res st1 ?s1 =
      Inr (fst (shelf (st1, (if new_row st (W (R a)) then [] else row) @ [p1]) (map R res)), s')"
    and k: "\<forall>b. same_size J R ?s1 b \<longrightarrow> same_size J R s' b" by blast
  from r g pl pl' have "repack J (a # res) st s = Inr (fst (shelf (st, row) (map R (a # res))), s')"
    by simp
  moreover from k keep have "\<forall>b. same_size J R s b \<longrightarrow> same_size J R s' b" by blast
  ultimately show ?case by blast
qed

text \<open>
  C6. The repacking pass on a grid of width 24, for panels whose widths are between 0
  and 24 (and a codec that decodes what it encodes). The pass returns. When it
  comes to a panel, the widths of the panels placed in the current row sum to at
  most 24; a new row is started exactly when this sum plus the panel's width
  exceeds 24, and then the panel gets \<open>x = 0\<close> and \<open>y\<close> advanced by the largest
  height of the row; otherwise it gets the cumulative width as \<open>x\<close> and the row's
  \<open>y\<close>. Width and height stay as they are.
\<close>

theorem repack_rows:
  assumes "\<forall>g. unmarshal_GridPos J (marshal_GridPos J g) = Some g"
    and "\<forall>a\<in>set (pre @ p # post).
           getGridPos J (s a) \<noteq> Inl Panic \<and>
           0 \<le>s W (rect J (s a)) \<and> W (rect J (s a)) \<le>s maxWidth"
  shows "\<exists>st row s1 pos pos1 st1 stf sf.
           repack J (pre @ p # post) initial_layout s = Inr (stf, sf) \<and>
           repack J pre initial_layout s = Inr (st, s1) \<and>
           shelf (initial_layout, []) (map (\<lambda>a. rect J (s a)) pre) = (st, row) \<and>
           getGridPos J (s1 p) = Inr pos \<and>
           W pos = W (rect J (s p)) \<and> H pos = H (rect J (s p)) \<and>
           place st pos = (pos1, st1) \<and>
           repack J (pre @ [p]) initial_layout s =
             Inr (st1, assign s1 p ''gridPos'' (Some (marshal_GridPos J pos1))) \<and>
           sint (currentRowWidth st) = width_sum row \<and> width_sum row \<le> 24 \<and>
           sint (currentRowMaxBottom st) = max_height row \<and>
           list_all (\<lambda>r. Y r = currentY st) row \<and>
           (new_row st (W pos) \<longleftrightarrow> 24 < width_sum row + sint (W pos)) \<and>
           (if new_row st (W pos)
            then X pos1 = 0 \<and> Y pos1 = currentY st + currentRowMaxBottom st
            else X pos1 = currentRowWidth st \<and> Y pos1 = currentY st) \<and>
           W pos1 = W pos \<and> H pos1 = H pos"
proof -
  let ?R = "\<lambda>a. rect J (s a)"
  have ss: "same_size J ?R s a" if "getGridPos J (s a) \<noteq> Inl Panic" for a
    using that by (cases "getGridPos J (s a)") (auto simp: same_size_def rect_def intro: error.exhaust)
  from assms(2) have all: "\<forall>a\<in>set (pre @ p # post). same_size J ?R s a"
    using ss by blast
  from repack_shelf [OF assms(1) all, of initial_layout "[]"]
  obtain stf sf where tot: "repack J (pre @ p # post) initial_layout s = Inr (stf, sf)"
    by blast
  from all have "\<forall>a\<in>set pre. same_size J ?R s a" by simp
  from repack_shelf [OF assms(1) this, of initial_layout "[]"]
  obtain s1 where r1: "repack J pre initial_layout s =
      Inr (fst (shelf (initial_layout, []) (map ?R pre)), s1)"
    and k1: "\<forall>b. same_size J ?R s b \<longrightarrow> same_size J ?R s1 b" by blast
  obtain st row where sh: "shelf (initial_layout, []) (map ?R pre) = (st, row)"
    by (cases "shelf (initial_layout, []) (map ?R pre)")
  have w: "0 \<le> sint (W (?R a)) \<and> sint (W (?R a)) \<le> 24" if "a \<in> set (pre @ p # post)" for a
    using assms(2) that by (auto simp: word_sle_eq maxWidth_def)
  then have "\<forall>p\<in>set (map ?R pre). 0 \<le> sint (W p) \<and> sint (W p) \<le> 24" by auto
  from shelf_row_inv [OF this] have inv: "row_inv (st, row)" by (simp add: sh)
  from all k1 have "same_size J ?R s1 p" by simp
  then obtain pos where pos: "getGridPos J (s1 p) = Inr pos"
    and sz: "W pos = W (?R p)" "H pos = H (?R p)"
    by (auto simp: same_size_def split: sum.splits)
  obtain pos1 st1 where pl: "place st pos = (pos1, st1)" by (cases "place st pos")
  from w [of p] sz have wp: "0 \<le> sint (W pos)" "sint (W pos) \<le> 24" by simp_all
  note f = place_row_inv [OF inv wp pl]
  have r2: "repack J (pre @ [p]) initial_layout s =
      Inr (st1, assign s1 p ''gridPos'' (Some (marshal_GridPos J pos1)))"
    by (simp add: repack_append r1 sh pos pl)
  from inv have i: "sint (currentRowWidth st) = width_sum row" "width_sum row \<le> 24"
    "sint (currentRowMaxBottom st) = max_height row" "list_all (\<lambda>r. Y r = currentY st) row"
    by (simp_all add: row_inv_def)
  have eff: "if new_row st (W pos)
            then X pos1 = 0 \<and> Y pos1 = currentY st + currentRowMaxBottom st
            else X pos1 = currentRowWidth st \<and> Y pos1 = currentY st"
    using f(5,6) by (cases "new_row st (W pos)") simp_all
  from r1 sh have r1': "repack J pre initial_layout s = Inr (st, s1)" by simp
  from tot r1' sh pos sz pl r2 i f(2,3,4) eff show ?thesis by blast
qed

theorem repack_rows_witness:
  \<open>\<exists>stf sf. repack json [0, 1, 2] initial_layout (store_of merge_panels) = Inr (stf, sf) \<and>
     GridPosRaw (sf 2) = Some ''{"h":8,"w":24,"x":0,"y":8}''\<close>
proof -
  let ?S = "store_of merge_panels"
  have rt: "\<forall>g. unmarshal_GridPos json (marshal_GridPos json g) = Some g"
    by (simp add: json_def json_GridPos_roundtrip)
  have wd: "\<forall>a\<in>set ([0, 1] @ 2 # []).
           getGridPos json (?S a) \<noteq> Inl Panic \<and>
           0 \<le>s W (rect json (?S a)) \<and> W (rect json (?S a)) \<le>s maxWidth"
    by code_simp
  have w2: "W (rect json (?S 2)) = 24" and h2: "H (rect json (?S 2)) = 8" by code_simp+
  have ws: "width_sum [\<lparr>H = 8, W = 12, X = 0, Y = 0\<rparr>, \<lparr>H = 4, W = 12, X = 12, Y = 0\<rparr>] = 24"
    by (simp add: width_sum_def)
  have shc: "shelf (initial_layout, []) (map (\<lambda>a. rect json (?S a)) [0, 1]) =
      (\<lparr>currentY = 0, currentRowWidth = 24, currentRowMaxBottom = 8\<rparr>,
       [\<lparr>H = 8, W = 12, X = 0, Y = 0\<rparr>, \<lparr>H = 4, W = 12, X = 12, Y = 0\<rparr>])"
    by code_simp
  have enc: \<open>marshal_GridPos json \<lparr>H = 8, W = 24, X = 0, Y = 8\<rparr> = ''{"h":8,"w":24,"x":0,"y":8}''\<close>
    by code_simp
  from repack_rows [OF rt wd] show ?thesis
  proof (elim exE conjE)
    fix st row s1 pos pos1 st1 stf sf
    assume tot: "repack json ([0, 1] @ [2]) initial_layout ?S = Inr (stf, sf)"
      and sh: "shelf (initial_layout, []) (map (\<lambda>a. rect json (?S a)) [0, 1]) = (st, row)"
      and sz: "W pos = W (rect json (?S 2))" "H pos = H (rect json (?S 2))"
      and r2: "repack json ([0, 1] @ [2]) initial_layout ?S =
             Inr (st1, assign s1 2 ''gridPos'' (Some (marshal_GridPos json pos1)))"
      and nr: "new_row st (W pos) \<longleftrightarrow> 24 < width_sum row + sint (W pos)"
      and eff: "if new_row st (W pos)
            then X pos1 = 0 \<and> Y pos1 = currentY st + currentRowMaxBottom st
            else X pos1 = currentRowWidth st \<and> Y pos1 = currentY st"
      and wh: "W pos1 = W pos" "H pos1 = H pos"
    from shc sh have st: "st = \<lparr>currentY = 0, currentRowWidth = 24, currentRowMaxBottom = 8\<rparr>"
      and row: "row = [\<lparr>H = 8, W = 12, X = 0, Y = 0\<rparr>, \<lparr>H = 4, W = 12, X = 12, Y = 0\<rparr>]"
      by simp_all
    from nr have "new_row st (W pos)" unfolding row ws sz w2 by simp
    with eff have "X pos1 = 0" "Y pos1 = 8" by (simp_all add: st)
    with wh sz w2 h2 have "pos1 = \<lparr>H = 8, W = 24, X = 0, Y = 8\<rparr>" by simp
    moreover from tot r2 have "sf = assign s1 2 ''gridPos'' (Some (marshal_GridPos json pos1))"
      by simp
    ultimately have "GridPosRaw (sf 2) = Some (marshal_GridPos json \<lparr>H = 8, W = 24, X = 0, Y = 8\<rparr>)"
      by (simp add: GridPosRaw_def index_assign)
    with tot show ?thesis unfolding enc by simp
  qed
qed


section \<open>Grouping by row\<close>

lemma is_row_panel_type: "is_row J p \<longleftrightarrow> panel_type J p = Some ''row''"
  by (simp add: is_row_def panel_type_def split: option.splits)

lemma same_head_facts:
  assumes "same_head p q"
  shows "panel_type J p = panel_type J q" "is_row J p = is_row J q"
    "is_content J p = is_content J q" "row_title J p = row_title J q"
    "group_name J c p = group_name J c q" "TitleRaw p = TitleRaw q" "TypeRaw p = TypeRaw q"
    "titled J p k = titled J q k"
  using assms
  by (simp_all add: same_head_def panel_type_def is_row_def is_content_def row_title_def
      group_name_def TitleRaw_def TypeRaw_def index_def titled_def)

lemma titled_names:
  assumes "titled J p k"
  shows "group_name J c p = k" "row_title J p = k"
  using assms by (auto simp: titled_def group_name_def row_title_def split: option.splits)


lemma same_head_refl [simp]: "same_head p p"
  by (simp add: same_head_def)

lemma same_head_trans: "same_head p q \<Longrightarrow> same_head q r \<Longrightarrow> same_head p r"
  by (simp add: same_head_def)

lemma same_head_key: "(\<And>a. same_head (s' a) (s a)) \<Longrightarrow> key s' = key s"
  by (rule ext) (simp add: key_def same_head_def index_def)

lemma alloc_facts:
  "alloc ps (s, n) = (as, (s', n')) \<Longrightarrow>
     n \<le> n' \<and> (\<forall>a\<in>set as. n \<le> a \<and> a < n') \<and> (\<forall>a<n. s' a = s a)"
proof (induction ps arbitrary: s n as s' n')
  case Nil
  then show ?case by simp
next
  case (Cons p ps)
  obtain as1 s1 n1 where a: "alloc ps (s(n := p), Suc n) = (as1, (s1, n1))"
    by (metis prod_cases3)
  with Cons.prems have eq: "as = n # as1" "s' = s1" "n' = n1" by simp_all
  from Cons.IH [OF a] have "Suc n \<le> n1" "\<forall>a\<in>set as1. Suc n \<le> a \<and> a < n1"
    "\<forall>a<Suc n. s1 a = (s(n := p)) a" by simp_all
  then show ?case unfolding eq by auto
qed

lemma retrieveEmbeddedPanels_facts:
  assumes "retrieveEmbeddedPanels J p (s, n) = (emb, (s', n'))"
  shows "n \<le> n'" "\<forall>a<n. s' a = s a" "\<forall>a\<in>set emb. n \<le> a \<and> a < n'"
proof -
  have "n \<le> n' \<and> (\<forall>a<n. s' a = s a) \<and> (\<forall>a\<in>set emb. n \<le> a \<and> a < n')"
  proof (cases "PanelsRaw (s p)")
    case None
    with assms show ?thesis by (simp add: retrieveEmbeddedPanels_def)
  next
    case (Some raw)
    show ?thesis
    proof (cases "unmarshal_Panels J raw")
      case None
      with Some assms show ?thesis by (simp add: retrieveEmbeddedPanels_def)
    next
      case (Some panels)
      with \<open>PanelsRaw (s p) = Some raw\<close> assms have "alloc panels (s, n) = (emb, (s', n'))"
        by (simp add: retrieveEmbeddedPanels_def)
      from alloc_facts [OF this] show ?thesis by auto
    qed
  qed
  then show "n \<le> n'" "\<forall>a<n. s' a = s a" "\<forall>a\<in>set emb. n \<le> a \<and> a < n'" by simp_all
qed

text \<open>The three ways one iteration of the grouping loop can go.\<close>

lemma groupByRow_step_cases:
  obtains
    (skipped) "panel_type J (s p) = None" "groupByRow_step J p (g, (s, n)) = (g, (s, n))"
  | (content) "is_content J (s p)"
      "groupByRow_step J p (g, (s, n)) =
         (g\<lparr>groups := (groups g)(groupName g \<mapsto> group_of (groups g) (groupName g) @ [p])\<rparr>, (s, n))"
  | (row) emb s1 n1 where "is_row J (s p)"
      "retrieveEmbeddedPanels J p (s, n) = (emb, (s1, n1))"
      "groupByRow_step J p (g, (s, n)) =
         (g\<lparr>groups := (groups g)(group_name J (groupName g) (s p) \<mapsto>
                group_of (groups g) (group_name J (groupName g) (s p)) @ emb),
            rows := (rows g)(group_name J (groupName g) (s p) \<mapsto> p),
            groupName := group_name J (groupName g) (s p)\<rparr>,
          (assign (assign s1 p ''panels'' (Some ''[]'')) p ''collapsed'' (Some ''false''), n1))"
proof (cases "panel_type J (s p)")
  case None
  then have "groupByRow_step J p (g, (s, n)) = (g, (s, n))"
    by (auto simp: groupByRow_step_def panel_type_def split: option.splits)
  with None show ?thesis by (rule skipped)
next
  case (Some ty)
  then obtain t where t: "TypeRaw (s p) = Some t" "unmarshal_string J t = Some ty"
    by (auto simp: panel_type_def split: option.splits)
  show ?thesis
  proof (cases "ty = ''row''")
    case True
    obtain emb s1 n1 where r: "retrieveEmbeddedPanels J p (s, n) = (emb, (s1, n1))"
      by (metis prod_cases3)
    from Some True have "is_row J (s p)" by (simp add: is_row_panel_type)
    moreover note r
    moreover from t True r have "groupByRow_step J p (g, (s, n)) =
         (g\<lparr>groups := (groups g)(group_name J (groupName g) (s p) \<mapsto>
                group_of (groups g) (group_name J (groupName g) (s p)) @ emb),
            rows := (rows g)(group_name J (groupName g) (s p) \<mapsto> p),
            groupName := group_name J (groupName g) (s p)\<rparr>,
          (assign (assign s1 p ''panels'' (Some ''[]'')) p ''collapsed'' (Some ''false''), n1))"
      by (simp add: groupByRow_step_def group_name_def Let_def)
    ultimately show ?thesis by (rule row)
  next
    case False
    with Some have "is_content J (s p)" by (simp add: is_content_def)
    moreover from t False have "groupByRow_step J p (g, (s, n)) =
         (g\<lparr>groups := (groups g)(groupName g \<mapsto> group_of (groups g) (groupName g) @ [p])\<rparr>, (s, n))"
      by (simp add: groupByRow_step_def)
    ultimately show ?thesis by (rule content)
  qed
qed

lemma same_head_assign:
  "k \<noteq> ''type'' \<Longrightarrow> k \<noteq> ''title'' \<Longrightarrow> same_head (assign s a k v b) (s b)"
  by (simp add: same_head_def assign_def)

text \<open>Grouping leaves title and type of the panels that exist alone, and allocates upwards.\<close>

lemma groupByRow_step_heap:
  assumes "groupByRow_step J p (g, (s, n)) = (g', (s', n'))"
  shows "n \<le> n'" "\<forall>a<n. same_head (s' a) (s a)"
proof -
  have "n \<le> n' \<and> (\<forall>a<n. same_head (s' a) (s a))"
  proof (cases rule: groupByRow_step_cases [of J s p g n])
    case skipped
    with assms show ?thesis by simp
  next
    case content
    with assms show ?thesis by simp
  next
    case (row emb s1 n1)
    note f = retrieveEmbeddedPanels_facts [OF row(2)]
    from row(3) assms have eq: "n' = n1"
      "s' = assign (assign s1 p ''panels'' (Some ''[]'')) p ''collapsed'' (Some ''false'')"
      by simp_all
    have "same_head (s' a) (s a)" if "a < n" for a
    proof -
      have "same_head (s' a) (s1 a)"
        unfolding eq by (simp add: same_head_def assign_def)
      moreover from f(2) that have "s1 a = s a" by simp
      ultimately show ?thesis by simp
    qed
    with f(1) eq show ?thesis by simp
  qed
  then show "n \<le> n'" "\<forall>a<n. same_head (s' a) (s a)" by simp_all
qed

lemma groupByRow_loop_heap:
  assumes "groupByRow_loop J ps (g, (s, n)) = (g', (s', n'))"
  shows "n \<le> n' \<and> (\<forall>a<n. same_head (s' a) (s a))"
  using assms
proof (induction ps arbitrary: g s n)
  case Nil
  then show ?case by simp
next
  case (Cons p ps)
  obtain g1 s1 n1 where st: "groupByRow_step J p (g, (s, n)) = (g1, (s1, n1))"
    by (metis prod_cases3)
  with Cons.prems have "groupByRow_loop J ps (g1, (s1, n1)) = (g', (s', n'))" by simp
  from Cons.IH [OF this] have 1: "n1 \<le> n'" "\<forall>a<n1. same_head (s' a) (s1 a)" by simp_all
  from groupByRow_step_heap [OF st] have 2: "n \<le> n1" "\<forall>a<n. same_head (s1 a) (s a)" .
  have "same_head (s' a) (s a)" if "a < n" for a
  proof -
    from that 2 have "a < n1" "same_head (s1 a) (s a)" by simp_all
    with 1 show ?thesis by (blast intro: same_head_trans)
  qed
  with 1 2 show ?case by simp
qed


lemma group_of_upd:
  "group_of (m(k \<mapsto> v)) k' = (if k' = k then v else group_of m k')"
  by (simp add: group_of_def)

text \<open>Grouping only adds: keys stay, and the group lists grow at their ends.\<close>

lemma groupByRow_step_mono:
  assumes "groupByRow_step J p (g, h) = (g', h')"
  shows "dom (groups g) \<subseteq> dom (groups g')" "dom (rows g) \<subseteq> dom (rows g')"
    "set (group_of (groups g) k) \<subseteq> set (group_of (groups g') k)"
proof -
  obtain s n where h: "h = (s, n)" by (cases h)
  have "dom (groups g) \<subseteq> dom (groups g') \<and> dom (rows g) \<subseteq> dom (rows g') \<and>
        set (group_of (groups g) k) \<subseteq> set (group_of (groups g') k)"
  proof (cases rule: groupByRow_step_cases [of J s p g n])
    case skipped
    with assms h show ?thesis by simp
  next
    case content
    with assms h have "g' = g\<lparr>groups := (groups g)(groupName g \<mapsto> group_of (groups g) (groupName g) @ [p])\<rparr>"
      by simp
    then show ?thesis by (auto simp: group_of_upd)
  next
    case (row emb s1 n1)
    with assms h have "g' = g\<lparr>groups := (groups g)(group_name J (groupName g) (s p) \<mapsto>
                group_of (groups g) (group_name J (groupName g) (s p)) @ emb),
            rows := (rows g)(group_name J (groupName g) (s p) \<mapsto> p),
            groupName := group_name J (groupName g) (s p)\<rparr>"
      by simp
    then show ?thesis by (auto simp: group_of_upd)
  qed
  then show "dom (groups g) \<subseteq> dom (groups g')" "dom (rows g) \<subseteq> dom (rows g')"
    "set (group_of (groups g) k) \<subseteq> set (group_of (groups g') k)" by simp_all
qed

lemma groupByRow_loop_mono:
  assumes "groupByRow_loop J ps (g, h) = (g', h')"
  shows "dom (groups g) \<subseteq> dom (groups g') \<and> dom (rows g) \<subseteq> dom (rows g') \<and>
         set (group_of (groups g) k) \<subseteq> set (group_of (groups g') k)"
  using assms
proof (induction ps arbitrary: g h)
  case Nil
  then show ?case by simp
next
  case (Cons p ps)
  obtain g1 h1 where st: "groupByRow_step J p (g, h) = (g1, h1)"
    by (cases "groupByRow_step J p (g, h)")
  with Cons.prems have "groupByRow_loop J ps (g1, h1) = (g', h')" by simp
  from Cons.IH [OF this] groupByRow_step_mono(1,2) [OF st] groupByRow_step_mono(3) [OF st, of k]
  show ?case by blast
qed

text \<open>A row whose title decodes is recorded under that title.\<close>

lemma groupByRow_loop_row:
  assumes "groupByRow_loop J ps (g, (s, n)) = (g', h')"
    and "r \<in> set ps" and "r < n" and "is_row J (s r)" and "titled J (s r) t"
  shows "t \<in> dom (rows g') \<and> t \<in> dom (groups g')"
  using assms
proof (induction ps arbitrary: g s n)
  case Nil
  then show ?case by simp
next
  case (Cons p ps)
  obtain g1 s1 n1 where st: "groupByRow_step J p (g, (s, n)) = (g1, (s1, n1))"
    by (metis prod_cases3)
  with Cons.prems(1) have l: "groupByRow_loop J ps (g1, (s1, n1)) = (g', h')" by simp
  note hp = groupByRow_step_heap [OF st]
  show ?case
  proof (cases "r = p")
    case True
    have "t \<in> dom (rows g1) \<and> t \<in> dom (groups g1)"
    proof (cases rule: groupByRow_step_cases [of J s p g n])
      case skipped
      with Cons.prems(4) True show ?thesis by (simp add: is_row_panel_type)
    next
      case content
      with Cons.prems(4) True show ?thesis by (simp add: is_row_panel_type is_content_def)
    next
      case (row emb s2 n2)
      from Cons.prems(5) True have "group_name J (groupName g) (s p) = t"
        by (simp add: titled_names)
      with row(3) st show ?thesis by auto
    qed
    with groupByRow_loop_mono [OF l] show ?thesis by blast
  next
    case False
    with Cons.prems(2) have "r \<in> set ps" by simp
    moreover from hp Cons.prems(3) have "r < n1" "same_head (s1 r) (s r)" by simp_all
    moreover from this(2) Cons.prems(4,5) have "is_row J (s1 r)" "titled J (s1 r) t"
      by (simp_all add: same_head_facts)
    ultimately show ?thesis using Cons.IH [OF l] by blast
  qed
qed


section \<open>The walk over the rows and the assembled sequence\<close>

lemma existing_groups_step:
  "existing_groups J s r1 r2 m (p # ps) (tmp2, seen) =
     (if is_row J (s p) then
        existing_groups J s r1 r2 m ps
          (tmp2 @ header_of r1 r2 (row_title J (s p)) p #
             (if \<not> seen (row_title J (s p)) then group_of m (row_title J (s p)) else []),
           seen(row_title J (s p) := True))
      else existing_groups J s r1 r2 m ps (tmp2, seen))"
proof -
  have "seen(row_title J (s p) := True) = seen" if "seen (row_title J (s p))"
    by (rule ext) (use that in simp)
  then show ?thesis
    by (simp add: Let_def header_of_def del: fun_upd_apply)
qed

lemma existing_block_Nil [simp]: "existing_block J s r1 r2 m seen [] = []"
  by (simp add: existing_block_def)

lemma existing_block_Cons:
  "existing_block J s r1 r2 m seen (p # ps) =
     (if is_row J (s p) then
        header_of r1 r2 (row_title J (s p)) p #
          (if \<not> seen (row_title J (s p)) then group_of m (row_title J (s p)) else []) @
          existing_block J s r1 r2 m (seen(row_title J (s p) := True)) ps
      else existing_block J s r1 r2 m seen ps)"
proof (cases "is_row J (s p)")
  case False
  then show ?thesis by (simp add: existing_block_def)
next
  case True
  define t where "t = row_title J (s p)"
  define ms where "ms = filter (\<lambda>p. is_row J (s p)) ps"
  define ts where "ts = map (\<lambda>p. row_title J (s p)) ms"
  define seen' where "seen' = seen(t := True)"
  define F where "F = (\<lambda>i. header_of r1 r2 ((t # ts) ! i) ((p # ms) ! i) #
                          (if \<not> seen ((t # ts) ! i) \<and> (t # ts) ! i \<notin> set (take i (t # ts))
                           then group_of m ((t # ts) ! i) else []))"
  define G where "G = (\<lambda>i. header_of r1 r2 (ts ! i) (ms ! i) #
                          (if \<not> seen' (ts ! i) \<and> ts ! i \<notin> set (take i ts)
                           then group_of m (ts ! i) else []))"
  have c: "(\<not> seen x \<and> x \<notin> set (t # l)) = (\<not> seen' x \<and> x \<notin> set l)" for x l
    by (auto simp: seen'_def)
  have FG: "F (Suc i) = G i" for i
    unfolding F_def G_def using c [of "ts ! i" "take i ts"] by simp
  have F0: "F 0 = header_of r1 r2 t p # (if \<not> seen t then group_of m t else [])"
    by (simp add: F_def)
  have up: "[0..<Suc (length ms)] = 0 # map Suc [0..<length ms]"
    by (simp add: upt_conv_Cons map_Suc_upt del: upt_Suc)
  have "concat (map F [0..<Suc (length ms)]) = F 0 @ concat (map G [0..<length ms])"
    unfolding up by (simp add: comp_def FG)
  moreover have "existing_block J s r1 r2 m seen (p # ps) = concat (map F [0..<Suc (length ms)])"
    using True
    by (simp add: existing_block_def Let_def F_def t_def ts_def ms_def del: upt_Suc cong: if_cong)
  moreover have "existing_block J s r1 r2 m seen' ps = concat (map G [0..<length ms])"
    by (simp add: existing_block_def Let_def G_def ts_def ms_def cong: if_cong)
  ultimately have "existing_block J s r1 r2 m seen (p # ps) =
      header_of r1 r2 t p # (if \<not> seen t then group_of m t else []) @
      existing_block J s r1 r2 m seen' ps"
    by (simp add: F0)
  with True show ?thesis by (simp add: t_def seen'_def del: fun_upd_apply)
qed

lemma existing_groups_block_aux:
  "fst (existing_groups J s r1 r2 m ps (tmp2, seen)) =
     tmp2 @ existing_block J s r1 r2 m seen ps"
proof (induction ps arbitrary: tmp2 seen)
  case Nil
  then show ?case by simp
next
  case (Cons p ps)
  show ?case
  proof (cases "is_row J (s p)")
    case True
    then show ?thesis
      unfolding existing_groups_step existing_block_Cons
      by (simp add: Cons.IH del: fun_upd_apply)
  next
    case False
    then show ?thesis
      unfolding existing_groups_step existing_block_Cons
      by (simp add: Cons.IH)
  qed
qed


text \<open>The block of new groups: what it appends and what it marks as seen.\<close>

lemma new_groups_step:
  "new_groups r1 r2 m (t # ts) (tmp1, seen) =
     (if m t \<noteq> None \<and> r2 t \<noteq> None \<and> r1 t = None
      then new_groups r1 r2 m ts (tmp1 @ the (r2 t) # group_of m t, seen(t := True))
      else new_groups r1 r2 m ts (tmp1, seen))"
  by (auto simp: group_of_def split: option.splits simp del: fun_upd_apply)

lemma new_groups_facts:
  assumes "new_groups r1 r2 m ts (tmp1, seen) = (tmp1', seen')"
  shows "set tmp1 \<subseteq> set tmp1' \<and>
         (\<forall>t. seen' t \<longrightarrow> seen t \<or> (r1 t = None \<and> set (group_of m t) \<subseteq> set tmp1')) \<and>
         (\<forall>t\<in>set ts. m t \<noteq> None \<and> r2 t \<noteq> None \<and> r1 t = None \<longrightarrow>
            set (group_of m t) \<subseteq> set tmp1')"
  using assms
proof (induction ts arbitrary: tmp1 seen)
  case Nil
  then show ?case by simp
next
  case (Cons t ts)
  show ?case
  proof (cases "m t \<noteq> None \<and> r2 t \<noteq> None \<and> r1 t = None")
    case True
    let ?tmp = "tmp1 @ the (r2 t) # group_of m t"
    from Cons.prems have "(if m t \<noteq> None \<and> r2 t \<noteq> None \<and> r1 t = None
      then new_groups r1 r2 m ts (?tmp, seen(t := True))
      else new_groups r1 r2 m ts (tmp1, seen)) = (tmp1', seen')"
      unfolding new_groups_step .
    with True have "new_groups r1 r2 m ts (?tmp, seen(t := True)) = (tmp1', seen')"
      by (simp del: fun_upd_apply)
    from Cons.IH [OF this] have a: "set ?tmp \<subseteq> set tmp1'"
      and b: "\<forall>u. seen' u \<longrightarrow> (seen(t := True)) u \<or> (r1 u = None \<and> set (group_of m u) \<subseteq> set tmp1')"
      and c: "\<forall>u\<in>set ts. m u \<noteq> None \<and> r2 u \<noteq> None \<and> r1 u = None \<longrightarrow>
            set (group_of m u) \<subseteq> set tmp1'" by blast+
    from a have a1: "set tmp1 \<subseteq> set tmp1'" and a2: "set (group_of m t) \<subseteq> set tmp1'" by auto
    from b a2 True have b': "\<forall>u. seen' u \<longrightarrow> seen u \<or> (r1 u = None \<and> set (group_of m u) \<subseteq> set tmp1')"
      by (auto split: if_splits)
    from c a2 have c': "\<forall>u\<in>set (t # ts). m u \<noteq> None \<and> r2 u \<noteq> None \<and> r1 u = None \<longrightarrow>
            set (group_of m u) \<subseteq> set tmp1'" by simp
    from a1 b' c' show ?thesis by blast
  next
    case False
    from Cons.prems have "(if m t \<noteq> None \<and> r2 t \<noteq> None \<and> r1 t = None
      then new_groups r1 r2 m ts (tmp1 @ the (r2 t) # group_of m t, seen(t := True))
      else new_groups r1 r2 m ts (tmp1, seen)) = (tmp1', seen')"
      unfolding new_groups_step .
    with False have "new_groups r1 r2 m ts (tmp1, seen) = (tmp1', seen')"
      by (simp only: if_False)
    from Cons.IH [OF this] False show ?thesis by auto
  qed
qed

text \<open>The walk emits the group of a title after the header of its first row.\<close>

lemma existing_block_emits:
  assumes "p \<in> set ps" and "is_row J (s p)" and "row_title J (s p) = t"
    and "\<not> seen t" and "r1 t = Some hdr"
  shows "\<exists>e1 e2. existing_block J s r1 r2 m seen ps = e1 @ hdr # group_of m t @ e2"
  using assms(1,4)
proof (induction ps arbitrary: seen)
  case Nil
  then show ?case by simp
next
  case (Cons q ps)
  show ?case
  proof (cases "is_row J (s q) \<and> row_title J (s q) = t")
    case True
    with Cons.prems(2) assms(5) have "existing_block J s r1 r2 m seen (q # ps) =
        [] @ hdr # group_of m t @ existing_block J s r1 r2 m (seen(t := True)) ps"
      by (simp add: existing_block_Cons header_of_def del: fun_upd_apply)
    then show ?thesis by blast
  next
    case False
    with assms(2,3) Cons.prems(1) have p: "p \<in> set ps" by auto
    show ?thesis
    proof (cases "is_row J (s q)")
      case True
      with False have ne: "row_title J (s q) \<noteq> t" by simp
      with Cons.prems(2) have "\<not> (seen(row_title J (s q) := True)) t" by simp
      from Cons.IH [of "seen(row_title J (s q) := True)", OF p this] obtain e1 e2 where
        "existing_block J s r1 r2 m (seen(row_title J (s q) := True)) ps =
           e1 @ hdr # group_of m t @ e2" by blast
      with True have "existing_block J s r1 r2 m seen (q # ps) =
          (header_of r1 r2 (row_title J (s q)) q #
            (if \<not> seen (row_title J (s q)) then group_of m (row_title J (s q)) else []) @ e1) @
          hdr # group_of m t @ e2"
        by (simp add: existing_block_Cons del: fun_upd_apply)
      then show ?thesis by blast
    next
      case False
      from Cons.IH [of seen, OF p Cons.prems(2)] False show ?thesis
        by (simp add: existing_block_Cons)
    qed
  qed
qed

text \<open>Merging the groups changes no title and no type.\<close>

lemma MergePanels_same_head:
  assumes "MergePanels J base inc s = Inr (res, s')"
  shows "same_head (s' a) (s a)"
proof -
  from assms obtain M maxY' where "merge_loop J inc (M, base, s) = (maxY', res, s')"
    by (rule MergePanels_Inr)
  from merge_loop_keeps [OF this] show ?thesis by (simp add: same_head_def)
qed

lemma merge_groups_same_head:
  assumes "merge_groups J g1 g2 ks m s = Inr (m', s')"
  shows "same_head (s' a) (s a)"
  using assms
proof (induction ks arbitrary: m s)
  case Nil
  then show ?case by simp
next
  case (Cons k ks)
  show ?case
  proof (cases "g1 k")
    case None
    with Cons show ?thesis by simp
  next
    case (Some l1)
    show ?thesis
    proof (cases "g2 k")
      case None
      with Some Cons show ?thesis by simp
    next
      case (Some l2)
      with \<open>g1 k = Some l1\<close> Cons.prems obtain R s1
        where mp: "MergePanels J l1 l2 s = Inr (R, s1)"
          and r: "merge_groups J g1 g2 ks (m(k \<mapsto> R)) s1 = Inr (m', s')"
        by (auto split: sum.splits)
      from Cons.IH [OF r] MergePanels_same_head [OF mp] show ?thesis
        by (blast intro: same_head_trans)
    qed
  qed
qed

lemma MergePanelsByGroup_Inr:
  assumes "MergePanelsByGroup J it ps1 ps2 top_flag h = Inr (res, s')"
  obtains M s1 st where "merge_by_group J it ps1 ps2 h = Inr (M, s1)"
    and "res = assemble J it ps1 top_flag M s1"
    and "repack J res initial_layout s1 = Inr (st, s')"
  using assms
  by (auto simp: MergePanelsByGroup_def Let_def split: sum.splits prod.splits)

lemma merge_by_group_Inr:
  assumes "merge_by_group J it ps1 ps2 (s, n) = Inr (M, s1)"
  obtains ga sa na gb sb nb m where
    "groupByRow_loop J ps1 (initial_grouping, (s, n)) = (ga, (sa, na))"
    and "groupByRow_loop J ps2 (initial_grouping, (sa, na)) = (gb, (sb, nb))"
    and "merge_groups J (groups ga) (groups gb) (groupsPs1_order it) Map.empty sb = Inr (m, s1)"
    and "M = \<lparr>rowsPs1 = rows ga, rowsPs2 = rows gb, mergedGroups = groups gb ++ m\<rparr>"
proof -
  obtain ga sa na where a: "groupByRow_loop J ps1 (initial_grouping, (s, n)) = (ga, (sa, na))"
    by (metis prod_cases3)
  obtain gb sb nb where b: "groupByRow_loop J ps2 (initial_grouping, (sa, na)) = (gb, (sb, nb))"
    by (metis prod_cases3)
  from assms a b obtain m where
    "merge_groups J (groups ga) (groups gb) (groupsPs1_order it) Map.empty sb = Inr (m, s1)"
    "M = \<lparr>rowsPs1 = rows ga, rowsPs2 = rows gb, mergedGroups = groups gb ++ m\<rparr>"
    by (auto simp: merge_by_group_def groupByRow_def initial_grouping_def split: sum.splits)
  with a b that show ?thesis by blast
qed

text \<open>After grouping and merging, the panels of the input have the titles and types they came with.\<close>

lemma merge_by_group_same_head:
  assumes "merge_by_group J it ps1 ps2 (s, n) = Inr (M, s1)" and "a < n"
  shows "same_head (s1 a) (s a)"
proof -
  from assms(1) obtain ga sa na gb sb nb m where
    a: "groupByRow_loop J ps1 (initial_grouping, (s, n)) = (ga, (sa, na))"
    and b: "groupByRow_loop J ps2 (initial_grouping, (sa, na)) = (gb, (sb, nb))"
    and c: "merge_groups J (groups ga) (groups gb) (groupsPs1_order it) Map.empty sb = Inr (m, s1)"
    and "M = \<lparr>rowsPs1 = rows ga, rowsPs2 = rows gb, mergedGroups = groups gb ++ m\<rparr>"
    by (rule merge_by_group_Inr)
  from groupByRow_loop_heap [OF a] assms(2) have 1: "a < na" "same_head (sa a) (s a)" by simp_all
  from groupByRow_loop_heap [OF b] 1 have 2: "same_head (sb a) (sa a)" by simp
  from merge_groups_same_head [OF c] have 3: "same_head (s1 a) (sb a)" .
  from 1 2 3 show ?thesis by (blast intro: same_head_trans)
qed

lemma assemble_eq:
  "assemble J it ps1 top_flag M s =
     (case new_groups (rowsPs1 M) (rowsPs2 M) (mergedGroups M) (mergedGroups_order it)
             ([], \<lambda>title. False) of
        (tmp1, seen) \<Rightarrow>
          group_of (mergedGroups M) ''none'' @
          (if top_flag
           then tmp1 @ existing_block J s (rowsPs1 M) (rowsPs2 M) (mergedGroups M) seen ps1
           else existing_block J s (rowsPs1 M) (rowsPs2 M) (mergedGroups M) seen ps1 @ tmp1))"
proof -
  obtain tmp1 seen where ng: "new_groups (rowsPs1 M) (rowsPs2 M) (mergedGroups M)
      (mergedGroups_order it) ([], \<lambda>title. False) = (tmp1, seen)"
    by (cases "new_groups (rowsPs1 M) (rowsPs2 M) (mergedGroups M)
      (mergedGroups_order it) ([], \<lambda>title. False)")
  obtain tmp2 seen' where eg: "existing_groups J s (rowsPs1 M) (rowsPs2 M) (mergedGroups M) ps1
      ([], seen) = (tmp2, seen')"
    by (cases "existing_groups J s (rowsPs1 M) (rowsPs2 M) (mergedGroups M) ps1 ([], seen)")
  from existing_groups_block_aux [of J s "rowsPs1 M" "rowsPs2 M" "mergedGroups M" ps1 "[]" seen] eg
  have "tmp2 = existing_block J s (rowsPs1 M) (rowsPs2 M) (mergedGroups M) seen ps1" by simp
  with ng eg show ?thesis by (simp add: assemble_def)
qed

text \<open>
  C3. The block of groups that only the incoming side has is built by ranging over
  the map \<open>mergedGroups\<close>. For a dashboard that brings two new rows A and B, the run
  that visits A first returns the rows in one order, the run that visits B first
  in the other: the output depends on the iteration order of the map.
\<close>

theorem new_groups_order_evaluation:
  \<open>(case MergePanelsByGroup json \<lparr>groupsPs1_order = [], mergedGroups_order = [''A'', ''B'']\<rparr>
           [] [0, 1, 2, 3] False (heap_of two_new_rows) of
      Inl e \<Rightarrow> False
    | Inr (res, s) \<Rightarrow> res = [0, 1, 2, 3]) \<and>
   (case MergePanelsByGroup json \<lparr>groupsPs1_order = [], mergedGroups_order = [''B'', ''A'']\<rparr>
           [] [0, 1, 2, 3] False (heap_of two_new_rows) of
      Inl e \<Rightarrow> False
    | Inr (res, s) \<Rightarrow> res = [2, 3, 0, 1])\<close>
  by code_simp

text \<open>
  C4. A row marker without a title that follows the row A: \<^verbatim>\<open>groupByRow\<close> keeps the
  group name A for it, records it as the row of A in place of the titled marker,
  and puts its nested panel into the group A. Nothing is recorded under \<open>none\<close>,
  the title the walk of \<^verbatim>\<open>MergePanelsByGroup\<close> gives the same marker.
\<close>

theorem groupByRow_untitled_row_evaluation:
  \<open>case groupByRow json [0, 1] (heap_of untitled_row) of
     ((gs, rs), h) \<Rightarrow>
       rs ''none'' = None \<and> gs ''none'' = None \<and>
       rs ''A'' = Some 1 \<and> gs ''A'' = Some [2, 3] \<and>
       TitleRaw (fst h 1) = None \<and>
       row_title json (fst h 1) = ''none''\<close>
  by code_simp

text \<open>
  C5, as stated, fails: with two row markers titled A in \<open>ps1\<close>, the header of A is
  emitted twice, before the group and again where the second marker stands.
\<close>

theorem existing_groups_header_counterexample:
  \<open>case MergePanelsByGroup json \<lparr>groupsPs1_order = [''A''], mergedGroups_order = [''A'']\<rparr>
           [0, 1, 2, 3] [] False (heap_of repeated_row) of
      Inl e \<Rightarrow> False
    | Inr (res, s) \<Rightarrow> res = [2, 1, 3, 2]\<close>
  by code_simp

text \<open>
  C5, amended. The walk over \<open>ps1\<close> appends a header for every row marker of \<open>ps1\<close>,
  also when the title occurred before; the merged group of the title follows the
  header only at the first marker with that title, and only when the block of new
  groups has not emitted it.
\<close>

theorem existing_groups_headers:
  "fst (existing_groups J s rows1 rows2 merged ps1 ([], seen)) =
     existing_block J s rows1 rows2 merged seen ps1"
  by (simp add: existing_groups_block_aux)

text \<open>
  C10. If \<open>ps1\<close> has a row marker whose title is the string \<open>none\<close>, the merged
  panels of the group \<open>none\<close> stand twice in the output: at the very front, and
  again right after the header of \<open>none\<close> in the block of existing groups.
\<close>

theorem none_row_group_twice:
  assumes "MergePanelsByGroup J it ps1 ps2 top_flag (s, n) = Inr (res, s')"
    and "r \<in> set ps1" and "r < n"
    and "is_row J (s r)" and "titled J (s r) ''none''"
  shows "\<exists>M s1 hdr pre post.
           merge_by_group J it ps1 ps2 (s, n) = Inr (M, s1) \<and>
           rowsPs1 M ''none'' = Some hdr \<and>
           res = group_of (mergedGroups M) ''none'' @ pre @
                 hdr # group_of (mergedGroups M) ''none'' @ post"
proof -
  from assms(1) obtain M s1 st where mg: "merge_by_group J it ps1 ps2 (s, n) = Inr (M, s1)"
    and res: "res = assemble J it ps1 top_flag M s1"
    by (rule MergePanelsByGroup_Inr)
  from mg obtain ga sa na gb sb nb m where
    a: "groupByRow_loop J ps1 (initial_grouping, (s, n)) = (ga, (sa, na))"
    and "groupByRow_loop J ps2 (initial_grouping, (sa, na)) = (gb, (sb, nb))"
    and "merge_groups J (groups ga) (groups gb) (groupsPs1_order it) Map.empty sb = Inr (m, s1)"
    and M: "M = \<lparr>rowsPs1 = rows ga, rowsPs2 = rows gb, mergedGroups = groups gb ++ m\<rparr>"
    by (rule merge_by_group_Inr)
  from groupByRow_loop_row [OF a assms(2-5)] M obtain hdr where hdr: "rowsPs1 M ''none'' = Some hdr"
    by auto
  from merge_by_group_same_head [OF mg assms(3)] assms(4,5)
  have row: "is_row J (s1 r)" and "titled J (s1 r) ''none''"
    by (simp_all add: same_head_facts)
  then have title: "row_title J (s1 r) = ''none''" by (simp add: titled_names)
  obtain tmp1 seen where ng: "new_groups (rowsPs1 M) (rowsPs2 M) (mergedGroups M)
      (mergedGroups_order it) ([], \<lambda>title. False) = (tmp1, seen)"
    by (cases "new_groups (rowsPs1 M) (rowsPs2 M) (mergedGroups M)
      (mergedGroups_order it) ([], \<lambda>title. False)")
  from new_groups_facts [OF ng] hdr have ns: "\<not> seen ''none''" by auto
  let ?N = "group_of (mergedGroups M) ''none''"
  from existing_block_emits [of r ps1 J s1 "''none''" seen "rowsPs1 M" hdr "rowsPs2 M" "mergedGroups M",
      OF assms(2) row title ns hdr] obtain e1 e2 where
    e: "existing_block J s1 (rowsPs1 M) (rowsPs2 M) (mergedGroups M) seen ps1 = e1 @ hdr # ?N @ e2"
    by blast
  have "res = ?N @ (if top_flag then tmp1 @ e1 else e1) @ hdr # ?N @ (if top_flag then e2 else e2 @ tmp1)"
    unfolding res assemble_eq ng by (simp add: e)
  with mg hdr show ?thesis by blast
qed

theorem none_row_group_twice_witness:
  \<open>\<exists>M s1 hdr pre post.
      merge_by_group json \<lparr>groupsPs1_order = [''none''], mergedGroups_order = [''none'']\<rparr>
        [0, 1, 2] [] (heap_of none_row) = Inr (M, s1) \<and>
      rowsPs1 M ''none'' = Some hdr \<and>
      [0, 2, 1, 0, 2] = group_of (mergedGroups M) ''none'' @ pre @
                  hdr # group_of (mergedGroups M) ''none'' @ post\<close>
proof -
  let ?it = "\<lparr>groupsPs1_order = [''none''], mergedGroups_order = [''none'']\<rparr>"
  have "case MergePanelsByGroup json ?it [0, 1, 2] [] False (heap_of none_row) of
          Inl e \<Rightarrow> False | Inr (res, s') \<Rightarrow> res = [0, 2, 1, 0, 2]"
    by code_simp
  then obtain s' where m: "MergePanelsByGroup json ?it [0, 1, 2] [] False
      (store_of none_row, length none_row) = Inr ([0, 2, 1, 0, 2], s')"
    by (auto simp: heap_of_def split: sum.splits)
  have h2: "(1 :: addr) \<in> set [0, 1, 2]" by simp
  have h3: "(1 :: addr) < length none_row" by (simp add: none_row_def)
  have h4: "is_row json (store_of none_row 1)" by code_simp
  have h5: "titled json (store_of none_row 1) ''none''" by code_simp
  from none_row_group_twice [OF m h2 h3 h4 h5] show ?thesis
    by (simp add: heap_of_def)
qed

section \<open>What becomes of the content panels\<close>


















end
